theory Spec2Isabelle
  imports Complex_Main
begin

section \<open>The weather widget of \<open>src/App.js\<close>\<close>

text \<open>
  \<open>App.js\<close> holds two pieces of logic: the pure function \<open>buildDaily\<close>, which folds the
  provider's three-hour forecast samples into at most five daily summaries, and the
  component \<open>App\<close>, whose handlers (\<open>fetchWeather\<close>, \<open>onSubmit\<close>, the unit toggle with
  its effect hook) drive the displayed state. Both are embedded below, function by
  function, with the source's names. Lines 6 to 8 of the file, a request outside any
  function on a city bound nowhere, belong to neither and are left out.
\<close>

subsection \<open>Forecast samples and daily summaries\<close>

text \<open>
  A forecast sample is one element of \<open>f.data.list\<close>. \<open>buildDaily\<close> reads
  \<open>item.dt_txt\<close>, \<open>item.main.temp_min\<close>, \<open>item.main.temp_max\<close>,
  \<open>item.weather[0].icon\<close> and \<open>item.weather[0].main\<close>. Temperatures are JavaScript
  numbers; every finite one is a rational, and \<open>Math.min\<close>, \<open>Math.max\<close> and
  \<open>Math.round\<close> are exact on them, so they are modelled in \<^typ>\<open>rat\<close>. The field
  \<open>main\<close> of a weather entry is named \<open>main_w\<close>, apart from the \<open>main\<close> block of the sample.
\<close>

record main_block =
  temp_min :: rat
  temp_max :: rat

record weather_entry =
  icon :: string
  main_w :: string

record item =
  dt_txt :: string
  main :: main_block
  weather :: "weather_entry list"

text \<open>The object literal returned for one day: \<open>{ date, min, max, icon, desc }\<close>.\<close>

record day =
  date :: string
  min_day :: int
  max_day :: int
  icon_day :: string
  desc :: string

text \<open>
  The exceptions in reach: \<open>TypeError\<close> for a property read on \<open>undefined\<close>,
  \<open>ReferenceError\<close> for an identifier that is bound nowhere.
\<close>

datatype error = TypeError | ReferenceError

subsection \<open>Host operations used by \<open>buildDaily\<close>\<close>

text \<open>\<open>s.split(" ")[0]\<close>: the part of \<open>s\<close> before its first space (all of \<open>s\<close> without one).\<close>

definition split_first :: "string \<Rightarrow> string" where
  "split_first s = takeWhile (\<lambda>c. c \<noteq> CHR '' '') s"

text \<open>
  A JavaScript \<open>Map\<close> keeps its keys in insertion order, which \<open>[...map.entries()]\<close>
  exposes: an association list, new keys appended at the end.
\<close>

type_synonym ('k, 'v) js_map = "('k \<times> 'v) list"

fun Map_has :: "('k, 'v) js_map \<Rightarrow> 'k \<Rightarrow> bool" where
  "Map_has [] k = False"
| "Map_has ((k', v) # m) k = (k' = k \<or> Map_has m k)"

fun Map_get :: "('k, 'v) js_map \<Rightarrow> 'k \<Rightarrow> 'v option" where
  "Map_get [] k = None"
| "Map_get ((k', v) # m) k = (if k' = k then Some v else Map_get m k)"

fun Map_set :: "('k, 'v) js_map \<Rightarrow> 'k \<Rightarrow> 'v \<Rightarrow> ('k, 'v) js_map" where
  "Map_set [] k v = [(k, v)]"
| "Map_set ((k', v') # m) k v = (if k' = k then (k, v) # m else (k', v') # Map_set m k v)"

text \<open>
  Dates. \<open>new Date(s)\<close> on the date-only form \<open>YYYY-MM-DD\<close> is fixed by ECMAScript: the
  time value is \<open>MakeDay(Y, M - 1, D) * msPerDay\<close>, in UTC. \<open>DayFromYear\<close>, \<open>InLeapYear\<close>
  and the month table are those of the standard. A string that is not a calendar date in
  that form gives an invalid date here, whose time value is \<open>NaN\<close> (\<open>None\<close>). What a host
  makes of other forms is implementation-defined; the properties that rest on the
  order of dates are stated for timestamps in the provider's form.
\<close>

definition is_digit :: "char \<Rightarrow> bool" where
  "is_digit c = (48 \<le> (of_char c :: nat) \<and> (of_char c :: nat) \<le> 57)"

definition digit_val :: "char \<Rightarrow> int" where
  "digit_val c = int (of_char c) - 48"

definition digits2 :: "char \<Rightarrow> char \<Rightarrow> int option" where
  "digits2 a b = (if is_digit a \<and> is_digit b then Some (10 * digit_val a + digit_val b) else None)"

definition digits4 :: "char \<Rightarrow> char \<Rightarrow> char \<Rightarrow> char \<Rightarrow> int option" where
  "digits4 a b c d =
     (if is_digit a \<and> is_digit b \<and> is_digit c \<and> is_digit d
      then Some (1000 * digit_val a + 100 * digit_val b + 10 * digit_val c + digit_val d)
      else None)"

definition InLeapYear :: "int \<Rightarrow> bool" where
  "InLeapYear y = ((y mod 4 = 0 \<and> y mod 100 \<noteq> 0) \<or> y mod 400 = 0)"

definition DayFromYear :: "int \<Rightarrow> int" where
  "DayFromYear y =
     365 * (y - 1970) + (y - 1969) div 4 - (y - 1901) div 100 + (y - 1601) div 400"

definition DaysInMonth :: "int \<Rightarrow> int \<Rightarrow> int" where
  "DaysInMonth y m =
     (if m = 2 then (if InLeapYear y then 29 else 28)
      else if m = 4 \<or> m = 6 \<or> m = 9 \<or> m = 11 then 30 else 31)"

text \<open>Days of the year before the first of month \<open>m\<close> (1 to 12).\<close>

definition MonthStart :: "int \<Rightarrow> int \<Rightarrow> int" where
  "MonthStart y m =
     (let leap = (if InLeapYear y then 1 else 0) in
      if m = 1 then 0 else if m = 2 then 31 else if m = 3 then 59 + leap
      else if m = 4 then 90 + leap else if m = 5 then 120 + leap
      else if m = 6 then 151 + leap else if m = 7 then 181 + leap
      else if m = 8 then 212 + leap else if m = 9 then 243 + leap
      else if m = 10 then 273 + leap else if m = 11 then 304 + leap
      else 334 + leap)"

definition MakeDay :: "int \<Rightarrow> int \<Rightarrow> int \<Rightarrow> int" where
  "MakeDay y m d = DayFromYear y + MonthStart y m + d - 1"

definition parse_date :: "string \<Rightarrow> (int \<times> int \<times> int) option" where
  "parse_date s =
     (case s of
        [y1, y2, y3, y4, h1, m1, m2, h2, d1, d2] \<Rightarrow>
          (if h1 = CHR ''-'' \<and> h2 = CHR ''-'' then
             (case digits4 y1 y2 y3 y4 of None \<Rightarrow> None | Some y \<Rightarrow>
              (case digits2 m1 m2 of None \<Rightarrow> None | Some m \<Rightarrow>
               (case digits2 d1 d2 of None \<Rightarrow> None | Some d \<Rightarrow>
                  if 1 \<le> m \<and> m \<le> 12 \<and> 1 \<le> d \<and> d \<le> DaysInMonth y m
                  then Some (y, m, d) else None)))
           else None)
      | _ \<Rightarrow> None)"

text \<open>\<open>new Date(s)\<close> read as a number (as the subtraction in the comparator does).\<close>

definition Date_value :: "string \<Rightarrow> int option" where
  "Date_value s =
     (case parse_date s of None \<Rightarrow> None
      | Some (y, m, d) \<Rightarrow> Some (MakeDay y m d * 86400000))"

text \<open>
  \<open>new Date(s).getHours()\<close> on the provider's timestamp form \<open>YYYY-MM-DD HH:MM:SS\<close>. The
  form has no zone, hosts read it as local time, and \<open>getHours\<close> gives the local hour
  back: the \<open>HH\<close> field. (A host whose zone skips that very hour at a clock change
  would answer the hour after; the model leaves zones out.) Any other string is an
  invalid date here, with \<open>getHours() = NaN\<close> (\<open>None\<close>).
\<close>

definition parse_time :: "string \<Rightarrow> (int \<times> int \<times> int) option" where
  "parse_time s =
     (case s of
        [h1, h2, c1, m1, m2, c2, s1, s2] \<Rightarrow>
          (if c1 = CHR '':'' \<and> c2 = CHR '':'' then
             (case digits2 h1 h2 of None \<Rightarrow> None | Some h \<Rightarrow>
              (case digits2 m1 m2 of None \<Rightarrow> None | Some mi \<Rightarrow>
               (case digits2 s1 s2 of None \<Rightarrow> None | Some se \<Rightarrow>
                  if h \<le> 23 \<and> mi \<le> 59 \<and> se \<le> 59 then Some (h, mi, se) else None)))
           else None)
      | _ \<Rightarrow> None)"

definition Date_getHours :: "string \<Rightarrow> int option" where
  "Date_getHours s =
     (if length s = 19 \<and> s ! 10 = CHR '' '' then
        (case parse_date (take 10 s) of None \<Rightarrow> None
         | Some ymd \<Rightarrow>
            (case parse_time (drop 11 s) of None \<Rightarrow> None
             | Some (h, mi, se) \<Rightarrow> Some h))
      else None)"

text \<open>
  Arithmetic and comparison with \<open>NaN\<close>: \<open>NaN - x\<close> and \<open>Math.abs(NaN)\<close> are \<open>NaN\<close>, and
  every \<open><\<close> with a \<open>NaN\<close> operand is false.
\<close>

definition num_sub :: "int option \<Rightarrow> int option \<Rightarrow> int option" where
  "num_sub a b = (case a of None \<Rightarrow> None | Some x \<Rightarrow> (case b of None \<Rightarrow> None | Some y \<Rightarrow> Some (x - y)))"

definition Math_abs :: "int option \<Rightarrow> int option" where
  "Math_abs a = (case a of None \<Rightarrow> None | Some x \<Rightarrow> Some \<bar>x\<bar>)"

definition num_lt :: "int option \<Rightarrow> int option \<Rightarrow> bool" where
  "num_lt a b = (case a of None \<Rightarrow> False | Some x \<Rightarrow> (case b of None \<Rightarrow> False | Some y \<Rightarrow> x < y))"

text \<open>
  \<open>Array.prototype.sort\<close> with a comparator is stable, puts \<open>a\<close> after \<open>b\<close> when
  \<open>cmp(a, b) > 0\<close> and reads a \<open>NaN\<close> result as \<open>0\<close>. For a comparator that is a
  consistent ordering every stable sort returns the same array; insertion from the
  right is one.
\<close>

definition cmp_pos :: "int option \<Rightarrow> bool" where
  "cmp_pos v = (case v of None \<Rightarrow> False | Some x \<Rightarrow> 0 < x)"

fun insert_sorted :: "('a \<Rightarrow> 'a \<Rightarrow> int option) \<Rightarrow> 'a \<Rightarrow> 'a list \<Rightarrow> 'a list" where
  "insert_sorted cmp x [] = [x]"
| "insert_sorted cmp x (y # ys) =
     (if cmp_pos (cmp x y) then y # insert_sorted cmp x ys else x # y # ys)"

definition Array_sort :: "('a \<Rightarrow> 'a \<Rightarrow> int option) \<Rightarrow> 'a list \<Rightarrow> 'a list" where
  "Array_sort cmp xs = foldr (insert_sorted cmp) xs []"

text \<open>
  \<open>Math.round\<close>: the nearest integer, a tie going to the larger one. \<open>Math.min\<close> and
  \<open>Math.max\<close> of a spread array, here with its first element apart: the array is never
  empty where the value is used.
\<close>

definition Math_round :: "rat \<Rightarrow> int" where
  "Math_round x = \<lfloor>x + 1 / 2\<rfloor>"

fun Math_min :: "rat \<Rightarrow> rat list \<Rightarrow> rat" where
  "Math_min x [] = x"
| "Math_min x (y # ys) = Math_min (min x y) ys"

fun Math_max :: "rat \<Rightarrow> rat list \<Rightarrow> rat" where
  "Math_max x [] = x"
| "Math_max x (y # ys) = Math_max (max x y) ys"

text \<open>\<open>xs.map(f)\<close> where \<open>f\<close> may throw: the first exception leaves the whole call.\<close>

fun Array_map :: "('a \<Rightarrow> error + 'b) \<Rightarrow> 'a list \<Rightarrow> error + 'b list" where
  "Array_map f [] = Inr []"
| "Array_map f (x # xs) =
     (case f x of Inl e \<Rightarrow> Inl e
      | Inr y \<Rightarrow> (case Array_map f xs of Inl e \<Rightarrow> Inl e | Inr ys \<Rightarrow> Inr (y # ys)))"

subsection \<open>\<open>buildDaily\<close>\<close>

text \<open>
  The body of the first \<open>forEach\<close>: the date key (\<open>d\<close> for the source's \<open>date\<close>, which
  names the field of a day here), a fresh array under a new key, and the
  push. \<open>map.get(date)\<close> cannot miss after the line before it (\<open>group_step_get\<close> below),
  so that branch returns the map as it is.
\<close>

definition group_step :: "(string, item list) js_map \<Rightarrow> item \<Rightarrow> (string, item list) js_map" where
  "group_step m i =
     (let d = split_first (dt_txt i);
          m1 = (if \<not> Map_has m d then Map_set m d [] else m)
      in case Map_get m1 d of
           None \<Rightarrow> m1
         | Some arr \<Rightarrow> Map_set m1 d (arr @ [i]))"

definition group_by_date :: "item list \<Rightarrow> (string, item list) js_map" where
  "group_by_date list = foldl group_step [] list"

text \<open>The comparator \<open>(a,b) => new Date(a[0]) - new Date(b[0])\<close>.\<close>

definition by_date :: "string \<times> 'v \<Rightarrow> string \<times> 'v \<Rightarrow> int option" where
  "by_date a b = num_sub (Date_value (fst a)) (Date_value (fst b))"

text \<open>\<open>Math.abs(new Date(i.dt_txt).getHours() - 12)\<close>.\<close>

definition noon_dist :: "item \<Rightarrow> int option" where
  "noon_dist i = Math_abs (num_sub (Date_getHours (dt_txt i)) (Some 12))"

text \<open>The second \<open>forEach\<close>, with \<open>best\<close> as its state.\<close>

fun pick_best :: "item \<Rightarrow> item list \<Rightarrow> item" where
  "pick_best best [] = best"
| "pick_best best (i # rest) =
     pick_best (if num_lt (noon_dist i) (noon_dist best) then i else best) rest"

text \<open>
  The callback of \<open>.map\<close>. On an empty array \<open>items[0]\<close> is \<open>undefined\<close> and
  \<open>best.weather\<close> throws; so does \<open>best.weather[0].icon\<close> when \<open>best\<close> has no weather
  entry.
\<close>

definition summarize :: "string \<times> item list \<Rightarrow> error + day" where
  "summarize e =
     (case e of (d, items) \<Rightarrow>
       (case items of
          [] \<Rightarrow> Inl TypeError
        | i0 # rest \<Rightarrow>
           (let mn = Math_min (temp_min (main i0)) (map (\<lambda>i. temp_min (main i)) rest);
                mx = Math_max (temp_max (main i0)) (map (\<lambda>i. temp_max (main i)) rest);
                best = pick_best i0 items
            in case weather best of
                 [] \<Rightarrow> Inl TypeError
               | w # ws \<Rightarrow>
                   Inr \<lparr> date = d, min_day = Math_round mn, max_day = Math_round mx,
                         icon_day = icon w, desc = main_w w \<rparr>)))"

definition buildDaily :: "item list \<Rightarrow> error + day list" where
  "buildDaily list =
     (case Array_map summarize (Array_sort by_date (group_by_date list)) of
        Inl e \<Rightarrow> Inl e
      | Inr days \<Rightarrow> Inr (take 5 days))"

subsection \<open>The component state\<close>

text \<open>
  \<open>w.data\<close>, the body of the current-conditions response, is stored whole in \<open>now\<close>;
  the fields are the ones the render reads.
\<close>

record current =
  name :: string
  country :: string
  temp :: rat
  wind_speed :: rat
  humidity :: rat
  icon_now :: string
  description :: string

text \<open>One \<open>axios.get(url, { params: { q, units, appid } })\<close>.\<close>

record request =
  url :: string
  q :: string
  units_param :: string
  appid :: string

text \<open>
  The seven \<open>useState\<close> cells of \<open>App\<close>, and beside them what the component does to the
  outside: \<open>sent\<close>, every request issued so far in order, and \<open>inflight\<close>, the calls of
  \<open>fetchWeather\<close> that wait at their \<open>await\<close>, each with its arguments \<open>city\<close> and
  \<open>unit\<close>.
\<close>

record app =
  query :: string
  units :: string
  now :: "current option"
  days :: "day list"
  loading :: bool
  errorMsg :: string
  lastCity :: string
  sent :: "request list"
  inflight :: "(string \<times> string) list"

definition init :: app where
  "init = \<lparr> query = [], units = ''metric'', now = None, days = [], loading = False,
             errorMsg = [], lastCity = [], sent = [], inflight = [] \<rparr>"

text \<open>
  \<open>API_KEY\<close> is read by \<open>fetchWeather\<close> (lines 58, 63 and 64) and bound nowhere in the
  file: line 5 binds \<open>apiKey\<close>. As committed, the identifier has no binding and reading
  it raises \<open>ReferenceError\<close>; that is \<open>Unbound\<close>. The other two cases are the identifier
  bound, to \<open>undefined\<close> (the environment variable not set) or to a string, which the
  guard of line 58 and the requests are written for.
\<close>

datatype binding = Unbound | Undefined | Key string

text \<open>
  \<open>String.prototype.trim\<close> removes white space and line terminators at both ends.
  Those among the code units a \<^typ>\<open>char\<close> holds: tab, line feed, vertical tab, form
  feed, carriage return, space and no-break space.
\<close>

definition is_space :: "char \<Rightarrow> bool" where
  "is_space c = ((of_char c :: nat) \<in> {9, 10, 11, 12, 13, 32, 160})"

definition trim :: "string \<Rightarrow> string" where
  "trim s = rev (dropWhile is_space (rev (dropWhile is_space s)))"

subsection \<open>\<open>fetchWeather\<close>\<close>

text \<open>
  The function up to its \<open>await\<close>: the test \<open>!API_KEY\<close>, whose read of the identifier
  throws when it has no binding, the test of the city, \<open>setLoading(true)\<close>,
  \<open>setErrorMsg("")\<close>, and the two requests of \<open>Promise.all\<close>.
\<close>

definition weather_url :: string where
  "weather_url = ''https://api.openweathermap.org/data/2.5/weather''"

definition forecast_url :: string where
  "forecast_url = ''https://api.openweathermap.org/data/2.5/forecast''"

definition get_pair :: "string \<Rightarrow> string \<Rightarrow> string \<Rightarrow> request list" where
  "get_pair k city unit =
     [\<lparr> url = weather_url, q = city, units_param = unit, appid = k \<rparr>,
      \<lparr> url = forecast_url, q = city, units_param = unit, appid = k \<rparr>]"

definition fetchWeather :: "binding \<Rightarrow> string \<Rightarrow> string \<Rightarrow> app \<Rightarrow> error + app" where
  "fetchWeather API_KEY city unit s =
     (case API_KEY of
        Unbound \<Rightarrow> Inl ReferenceError
      | Undefined \<Rightarrow> Inr (s\<lparr> errorMsg := ''Missing OpenWeather API key in .env.local'' \<rparr>)
      | Key k \<Rightarrow>
          if k = [] then Inr (s\<lparr> errorMsg := ''Missing OpenWeather API key in .env.local'' \<rparr>)
          else if city = [] then Inr s
          else Inr (s\<lparr> loading := True, errorMsg := [],
                       sent := sent s @ get_pair k city unit,
                       inflight := inflight s @ [(city, unit)] \<rparr>))"

text \<open>
  Both callers write \<open>fetchWeather(...)\<close> as a statement, with no \<open>await\<close> and no
  \<open>catch\<close>. An exception before the \<open>await\<close> of an \<open>async\<close> function rejects the promise
  it returns; nobody handles it, no setter has run, and the state is as the caller left
  it.
\<close>

definition unawaited :: "error + app \<Rightarrow> app \<Rightarrow> app" where
  "unawaited r s = (case r of Inl e \<Rightarrow> s | Inr s' \<Rightarrow> s')"

text \<open>
  The function from its \<open>await\<close> on, for the call made with \<open>city\<close>. Each of the two
  requests has settled: \<open>None\<close> is a rejected one, \<open>Some\<close> carries \<open>w.data\<close>, respectively
  \<open>f.data.list\<close>. \<open>Promise.all\<close> rejects when either does, and an exception of
  \<open>buildDaily\<close> is thrown inside the \<open>try\<close> as well: all three reach the \<open>catch\<close>,
  whose \<open>setNow(null)\<close> then overrides the \<open>setNow(w.data)\<close> before it.
  \<open>finally\<close> runs \<open>setLoading(false)\<close> on both paths. The setters called in one
  resumption are one update of the state.
\<close>

definition fetch_failed :: "app \<Rightarrow> app" where
  "fetch_failed s =
     s\<lparr> now := None, days := [], errorMsg := ''City not found. Try another name.'',
        loading := False \<rparr>"

definition fetchWeather_settled ::
  "string \<Rightarrow> current option \<Rightarrow> item list option \<Rightarrow> app \<Rightarrow> app" where
  "fetchWeather_settled city w f s =
     (case w of
        None \<Rightarrow> fetch_failed s
      | Some w_data \<Rightarrow>
         (case f of
            None \<Rightarrow> fetch_failed s
          | Some f_list \<Rightarrow>
             (case buildDaily f_list of
                Inl e \<Rightarrow> fetch_failed s
              | Inr ds \<Rightarrow>
                  s\<lparr> now := Some w_data, days := ds, lastCity := city, loading := False \<rparr>)))"

subsection \<open>Handlers and events\<close>

text \<open>\<open>onSubmit\<close>: \<open>fetchWeather(query.trim(), units)\<close>.\<close>

definition onSubmit :: "binding \<Rightarrow> app \<Rightarrow> app" where
  "onSubmit API_KEY s = unawaited (fetchWeather API_KEY (trim (query s)) (units s) s) s"

text \<open>
  The click on the unit toggle, \<open>setUnits(prev => prev === "metric" ? "imperial" : "metric")\<close>,
  followed by the effect that depends on \<open>units\<close>:
  \<open>if(lastCity) fetchWeather(lastCity, units)\<close>, run in the render that has the new unit.
  (The effect also runs once on mount, where \<open>lastCity\<close> is empty and nothing happens.)
\<close>

definition toggled :: "string \<Rightarrow> string" where
  "toggled prev = (if prev = ''metric'' then ''imperial'' else ''metric'')"

definition onToggle :: "binding \<Rightarrow> app \<Rightarrow> app" where
  "onToggle API_KEY s =
     (let s1 = s\<lparr> units := toggled (units s) \<rparr>
      in if lastCity s1 \<noteq> []
         then unawaited (fetchWeather API_KEY (lastCity s1) (units s1) s1) s1
         else s1)"

text \<open>
  What can happen to the component: the input changes (\<open>setQuery\<close>), the form is
  submitted, the unit toggle is clicked, or the \<open>n\<close>-th waiting call of \<open>fetchWeather\<close>
  resumes with the outcome of its two requests. Calls may overlap and resume in any
  order; the source holds no guard against it. Settling a call that does not exist
  changes nothing. The unit toggle, whose \<open>onClick\<close> is the one caller of \<open>setUnits\<close>,
  is rendered inside \<open>{now && ( ... )}\<close> only: while \<open>now\<close> is \<open>null\<close> there is no toggle,
  and the event changes nothing.
\<close>

datatype event =
  Change string
| Submit
| Toggle
| Settle nat "current option" "item list option"

fun remove_nth :: "nat \<Rightarrow> 'a list \<Rightarrow> 'a list" where
  "remove_nth n [] = []"
| "remove_nth 0 (x # xs) = xs"
| "remove_nth (Suc n) (x # xs) = x # remove_nth n xs"

fun step :: "binding \<Rightarrow> app \<Rightarrow> event \<Rightarrow> app" where
  "step API_KEY s (Change v) = s\<lparr> query := v \<rparr>"
| "step API_KEY s Submit = onSubmit API_KEY s"
| "step API_KEY s Toggle = (if now s \<noteq> None then onToggle API_KEY s else s)"
| "step API_KEY s (Settle n w f) =
     (if n < length (inflight s)
      then fetchWeather_settled (fst (inflight s ! n)) w f
             (s\<lparr> inflight := remove_nth n (inflight s) \<rparr>)
      else s)"

definition run :: "binding \<Rightarrow> event list \<Rightarrow> app" where
  "run API_KEY evs = foldl (step API_KEY) init evs"

text \<open>
  The cities of the searches that have succeeded along a run, oldest first: a call that
  resumed with both responses and whose forecast \<open>buildDaily\<close> accepted.
\<close>

fun succeeded :: "binding \<Rightarrow> app \<Rightarrow> event list \<Rightarrow> string list" where
  "succeeded API_KEY s [] = []"
| "succeeded API_KEY s (ev # evs) =
     (case ev of
        Settle n (Some w_data) (Some f_list) \<Rightarrow>
          (if n < length (inflight s) \<and> \<not> isl (buildDaily f_list)
           then [fst (inflight s ! n)] else [])
      | _ \<Rightarrow> [])
     @ succeeded API_KEY (step API_KEY s ev) evs"

subsection \<open>Notions used to state the properties\<close>

text \<open>
  The calendar date of a sample is the key \<open>buildDaily\<close> files it under. A timestamp is
  in the provider's form when the model of \<open>getHours\<close> reads it. \<open>DaysInYear\<close> is the
  standard's; \<open>valid_md\<close> is the test \<open>parse_date\<close> makes on month and day.
\<close>

definition date_key :: "item \<Rightarrow> string" where
  "date_key i = split_first (dt_txt i)"

definition stamp_ok :: "string \<Rightarrow> bool" where
  "stamp_ok s = (Date_getHours s \<noteq> None)"

definition DaysInYear :: "int \<Rightarrow> int" where
  "DaysInYear y = (if InLeapYear y then 366 else 365)"

definition valid_md :: "int \<Rightarrow> int \<Rightarrow> int \<Rightarrow> bool" where
  "valid_md y m d = (1 \<le> m \<and> m \<le> 12 \<and> 1 \<le> d \<and> d \<le> DaysInMonth y m)"

text \<open>
  The time value of an entry's key and the distance of a sample's hour from noon, as
  plain integers (\<open>0\<close> where the source has \<open>NaN\<close>); the proofs compare these.
\<close>

definition time_of :: "string \<times> 'v \<Rightarrow> int" where
  "time_of e = (case Date_value (fst e) of None \<Rightarrow> 0 | Some t \<Rightarrow> t)"

definition dist_of :: "item \<Rightarrow> int" where
  "dist_of i = (case Date_getHours (dt_txt i) of None \<Rightarrow> 0 | Some h \<Rightarrow> \<bar>h - 12\<bar>)"

text \<open>
  A key is configured when the identifier is bound to a string that is not empty. Two
  facts hold along every run: a call waits, or a city is remembered, only when a key is
  configured, no waiting call is for the empty city, and current conditions are shown
  only with a city remembered; the displayed pair is absent or made by a fetch.
\<close>

definition keyed :: "binding \<Rightarrow> bool" where
  "keyed b = (case b of Key k \<Rightarrow> k \<noteq> [] | _ \<Rightarrow> False)"

definition run_inv :: "binding \<Rightarrow> app \<Rightarrow> bool" where
  "run_inv API_KEY s =
     ((\<forall>c\<in>fst ` set (inflight s). c \<noteq> []) \<and>
      ((inflight s \<noteq> [] \<or> lastCity s \<noteq> []) \<longrightarrow> keyed API_KEY) \<and>
      (now s \<noteq> None \<longrightarrow> lastCity s \<noteq> []))"


subsection \<open>Sample data\<close>

text \<open>
  A forecast of nine samples on six dates, out of order, and the five days
  \<open>buildDaily\<close> makes of it; a current-conditions body.
\<close>

definition sample :: "string \<Rightarrow> rat \<Rightarrow> rat \<Rightarrow> string \<Rightarrow> string \<Rightarrow> item" where
  "sample t lo hi ic lbl =
     \<lparr> dt_txt = t, main = \<lparr> temp_min = lo, temp_max = hi \<rparr>,
       weather = [\<lparr> icon = ic, main_w = lbl \<rparr>] \<rparr>"

definition forecast0 :: "item list" where
  "forecast0 =
     [sample ''2024-03-02 12:00:00'' (- 5 / 2) (7 / 2) ''13d'' ''Snow'',
      sample ''2024-03-01 09:00:00'' (52 / 5) 11 ''01d'' ''Clear'',
      sample ''2024-03-01 10:00:00'' (48 / 5) 12 ''02d'' ''Clouds'',
      sample ''2024-03-01 14:00:00'' 11 (25 / 2) ''10d'' ''Rain'',
      sample ''2024-03-02 15:00:00'' 1 2 ''03d'' ''Clouds'',
      sample ''2024-02-29 21:00:00'' 3 4 ''01n'' ''Clear'',
      sample ''2024-03-03 00:00:00'' 5 6 ''04n'' ''Clouds'',
      sample ''2024-03-04 15:00:00'' 7 8 ''09d'' ''Drizzle'',
      sample ''2024-03-05 06:00:00'' 1 2 ''50d'' ''Mist'']"

definition days0 :: "day list" where
  "days0 =
     [\<lparr> date = ''2024-02-29'', min_day = 3, max_day = 4, icon_day = ''01n'', desc = ''Clear'' \<rparr>,
      \<lparr> date = ''2024-03-01'', min_day = 10, max_day = 13, icon_day = ''02d'', desc = ''Clouds'' \<rparr>,
      \<lparr> date = ''2024-03-02'', min_day = - 2, max_day = 4, icon_day = ''13d'', desc = ''Snow'' \<rparr>,
      \<lparr> date = ''2024-03-03'', min_day = 5, max_day = 6, icon_day = ''04n'', desc = ''Clouds'' \<rparr>,
      \<lparr> date = ''2024-03-04'', min_day = 7, max_day = 8, icon_day = ''09d'', desc = ''Drizzle'' \<rparr>]"

text \<open>The second of these days, and the samples of its date in the order of the forecast.\<close>

definition day1 :: day where
  "day1 = \<lparr> date = ''2024-03-01'', min_day = 10, max_day = 13, icon_day = ''02d'', desc = ''Clouds'' \<rparr>"

definition group1 :: "item list" where
  "group1 =
     [sample ''2024-03-01 09:00:00'' (52 / 5) 11 ''01d'' ''Clear'',
      sample ''2024-03-01 10:00:00'' (48 / 5) 12 ''02d'' ''Clouds'',
      sample ''2024-03-01 14:00:00'' 11 (25 / 2) ''10d'' ''Rain'']"

definition paris :: current where
  "paris = \<lparr> name = ''Paris'', country = ''FR'', temp = 25 / 2, wind_speed = 31 / 10,
             humidity = 80, icon_now = ''04d'', description = ''broken clouds'' \<rparr>"

text \<open>
  With the key \<open>k\<close> configured: a search for Paris waiting for its responses, the same
  search succeeded, and then a search for Atlantis waiting while Paris is shown.
\<close>

definition key0 :: binding where
  "key0 = Key ''k''"

definition waiting_paris :: app where
  "waiting_paris =
     \<lparr> query = ''Paris'', units = ''metric'', now = None, days = [],
       loading = True, errorMsg = [], lastCity = [],
       sent = get_pair ''k'' ''Paris'' ''metric'', inflight = [(''Paris'', ''metric'')] \<rparr>"

definition search_paris :: "event list" where
  "search_paris = [Change ''Paris'', Submit, Settle 0 (Some paris) (Some forecast0)]"

definition shown_paris :: app where
  "shown_paris =
     \<lparr> query = ''Paris'', units = ''metric'', now = Some paris, days = days0,
       loading = False, errorMsg = [], lastCity = ''Paris'',
       sent = get_pair ''k'' ''Paris'' ''metric'', inflight = [] \<rparr>"

definition search_atlantis :: "event list" where
  "search_atlantis = search_paris @ [Change ''Atlantis'', Submit]"

definition waiting_atlantis :: app where
  "waiting_atlantis =
     \<lparr> query = ''Atlantis'', units = ''metric'', now = Some paris, days = days0,
       loading = True, errorMsg = [], lastCity = ''Paris'',
       sent = get_pair ''k'' ''Paris'' ''metric'' @ get_pair ''k'' ''Atlantis'' ''metric'',
       inflight = [(''Atlantis'', ''metric'')] \<rparr>"

section \<open>Calendar arithmetic\<close>

text \<open>
  The time value of a calendar date determines the date: \<open>MakeDay\<close> is strictly
  increasing in the order of year, month and day, and the parser is one-to-one.
\<close>

lemma div_succ:
  fixes a n :: int
  assumes "0 < n"
  shows "(a + 1) div n = a div n + (if (a + 1) mod n = 0 then 1 else 0)"
proof -
  define k r where "k = a div n" and "r = a mod n"
  have e: "a = n * k + r" and r: "0 \<le> r" "r < n"
    using assms by (simp_all add: k_def r_def)
  show ?thesis
  proof (cases "r + 1 = n")
    case True
    then have "a + 1 = n * (k + 1) + 0"
      using e by (simp add: algebra_simps)
    then have "(a + 1) div n = k + 1" and "(a + 1) mod n = 0"
      using assms int_div_pos_eq[of "a + 1" n "k + 1" 0] int_mod_pos_eq[of "a + 1" n "k + 1" 0]
      by simp_all
    then show ?thesis by (simp add: k_def)
  next
    case False
    have "a + 1 = n * k + (r + 1)"
      using e by simp
    then have "(a + 1) div n = k" and "(a + 1) mod n = r + 1"
      using assms r False int_div_pos_eq[of "a + 1" n k "r + 1"]
        int_mod_pos_eq[of "a + 1" n k "r + 1"]
      by simp_all
    then show ?thesis using r by (simp add: k_def)
  qed
qed

lemma div4_succ: "((y::int) - 1968) div 4 = (y - 1969) div 4 + (if (y - 1968) mod 4 = 0 then 1 else 0)"
  using div_succ[of 4 "y - 1969"] by simp

lemma div100_succ: "((y::int) - 1900) div 100 = (y - 1901) div 100 + (if (y - 1900) mod 100 = 0 then 1 else 0)"
  using div_succ[of 100 "y - 1901"] by simp

lemma div400_succ: "((y::int) - 1600) div 400 = (y - 1601) div 400 + (if (y - 1600) mod 400 = 0 then 1 else 0)"
  using div_succ[of 400 "y - 1601"] by simp

lemma mod4_shift: "((y::int) - 1968) mod 4 = y mod 4"
  using mod_mult_self1[of y "-492" 4] by simp

lemma mod100_shift: "((y::int) - 1900) mod 100 = y mod 100"
  using mod_mult_self1[of y "-19" 100] by simp

lemma mod400_shift: "((y::int) - 1600) mod 400 = y mod 400"
  using mod_mult_self1[of y "-4" 400] by simp

lemma mod400_100: "(y::int) mod 400 = 0 \<Longrightarrow> y mod 100 = 0"
proof -
  assume "y mod 400 = 0"
  then have "400 dvd y" by (simp add: dvd_eq_mod_eq_0)
  moreover have "(100::int) dvd 400" by simp
  ultimately have "100 dvd y" using dvd_trans by blast
  then show ?thesis by simp
qed

lemma mod100_4: "(y::int) mod 100 = 0 \<Longrightarrow> y mod 4 = 0"
proof -
  assume "y mod 100 = 0"
  then have "100 dvd y" by (simp add: dvd_eq_mod_eq_0)
  moreover have "(4::int) dvd 100" by simp
  ultimately have "4 dvd y" using dvd_trans by blast
  then show ?thesis by simp
qed

lemma DayFromYear_succ: "DayFromYear (y + 1) = DayFromYear y + DaysInYear y"
proof -
  have "DayFromYear (y + 1) =
          365 * (y - 1970) + 365 + (y - 1968) div 4 - (y - 1900) div 100 + (y - 1600) div 400"
    by (simp add: DayFromYear_def algebra_simps)
  also have "\<dots> = DayFromYear y + 365 + (if y mod 4 = 0 then 1 else 0)
                     - (if y mod 100 = 0 then 1 else 0) + (if y mod 400 = 0 then 1 else 0)"
    unfolding div4_succ div100_succ div400_succ mod4_shift mod100_shift mod400_shift DayFromYear_def
    by simp
  also have "\<dots> = DayFromYear y + DaysInYear y"
    using mod400_100[of y] mod100_4[of y] by (auto simp: DaysInYear_def InLeapYear_def)
  finally show ?thesis .
qed

lemma DaysInYear_pos: "365 \<le> DaysInYear y"
  by (simp add: DaysInYear_def)

lemma DayFromYear_mono_nat: "DayFromYear y \<le> DayFromYear (y + int k)"
proof (induction k)
  case 0
  show ?case by simp
next
  case (Suc k)
  have "DayFromYear (y + int (Suc k)) = DayFromYear (y + int k) + DaysInYear (y + int k)"
    using DayFromYear_succ[of "y + int k"] by (simp add: algebra_simps)
  with Suc DaysInYear_pos[of "y + int k"] show ?case by linarith
qed

lemma DayFromYear_mono: "y \<le> y' \<Longrightarrow> DayFromYear y \<le> DayFromYear y'"
  using DayFromYear_mono_nat[of y "nat (y' - y)"] by simp

lemma DayFromYear_next: "y < y' \<Longrightarrow> DayFromYear y + DaysInYear y \<le> DayFromYear y'"
  using DayFromYear_mono[of "y + 1" y'] DayFromYear_succ[of y] by simp

lemma month_cases: "1 \<le> m \<Longrightarrow> m \<le> 12 \<Longrightarrow>
  m = 1 \<or> m = 2 \<or> m = 3 \<or> m = 4 \<or> m = 5 \<or> m = 6 \<or> m = 7 \<or> m = 8 \<or> m = 9 \<or> m = 10 \<or> m = 11 \<or> m = (12::int)"
  by arith

lemma MonthStart_nonneg: "0 \<le> MonthStart y m"
  by (simp add: MonthStart_def)

lemma MonthStart_end: "1 \<le> m \<Longrightarrow> m \<le> 12 \<Longrightarrow> MonthStart y m + DaysInMonth y m \<le> DaysInYear y"
  using month_cases[of m] by (auto simp: MonthStart_def DaysInMonth_def DaysInYear_def)

lemma MonthStart_step: "1 \<le> m \<Longrightarrow> m < 12 \<Longrightarrow> MonthStart y (m + 1) = MonthStart y m + DaysInMonth y m"
  using month_cases[of m] by (auto simp: MonthStart_def DaysInMonth_def)

lemma DaysInMonth_pos: "0 < DaysInMonth y m"
  by (simp add: DaysInMonth_def)

lemma MonthStart_mono_nat: "1 \<le> m \<Longrightarrow> m + int k \<le> 12 \<Longrightarrow> MonthStart y m \<le> MonthStart y (m + int k)"
proof (induction k)
  case 0
  show ?case by simp
next
  case (Suc k)
  have "MonthStart y (m + int (Suc k)) = MonthStart y (m + int k) + DaysInMonth y (m + int k)"
    using MonthStart_step[of "m + int k" y] Suc.prems by (simp add: algebra_simps)
  with Suc DaysInMonth_pos[of y "m + int k"] show ?case by simp
qed

lemma MonthStart_next:
  assumes "1 \<le> m" "m < m'" "m' \<le> 12"
  shows "MonthStart y m + DaysInMonth y m \<le> MonthStart y m'"
proof -
  have "MonthStart y (m + 1) \<le> MonthStart y (m + 1 + int (nat (m' - (m + 1))))"
    using assms by (intro MonthStart_mono_nat) simp_all
  then show ?thesis using MonthStart_step[of m y] assms by simp
qed

lemma MakeDay_less_year:
  assumes "valid_md y m d" "valid_md y' m' d'" "y < y'"
  shows "MakeDay y m d < MakeDay y' m' d'"
proof -
  have "MakeDay y m d < DayFromYear y + DaysInYear y"
    using assms(1) MonthStart_end[of m y] by (simp add: MakeDay_def valid_md_def)
  also have "\<dots> \<le> DayFromYear y'" using assms(3) by (rule DayFromYear_next)
  also have "\<dots> \<le> MakeDay y' m' d'"
    using assms(2) MonthStart_nonneg[of y' m'] by (simp add: MakeDay_def valid_md_def)
  finally show ?thesis .
qed

lemma MakeDay_less_month:
  assumes "valid_md y m d" "valid_md y m' d'" "m < m'"
  shows "MakeDay y m d < MakeDay y m' d'"
  using assms MonthStart_next[of m m' y] by (simp add: MakeDay_def valid_md_def)

lemma MakeDay_inj:
  assumes "valid_md y m d" "valid_md y' m' d'" "MakeDay y m d = MakeDay y' m' d'"
  shows "y = y' \<and> m = m' \<and> d = d'"
proof -
  have y: "y = y'"
    using MakeDay_less_year[OF assms(1,2)] MakeDay_less_year[OF assms(2,1)] assms(3)
    by (cases y y' rule: linorder_cases) simp_all
  have m: "m = m'"
    using MakeDay_less_month[of y m d m' d'] MakeDay_less_month[of y m' d' m d] assms y
    by (cases m m' rule: linorder_cases) simp_all
  from assms(3) y m have "d = d'" by (simp add: MakeDay_def)
  with y m show ?thesis by simp
qed

lemma digit_val_range: "is_digit c \<Longrightarrow> 0 \<le> digit_val c \<and> digit_val c \<le> 9"
  by (auto simp: is_digit_def digit_val_def)

lemma digit_val_inj: "digit_val a = digit_val b \<Longrightarrow> a = b"
  by (simp add: digit_val_def)

lemma base10_unique:
  fixes x y x' y' :: int
  assumes "0 \<le> y" "y \<le> 9" "0 \<le> y'" "y' \<le> 9" "10 * x + y = 10 * x' + y'"
  shows "x = x' \<and> y = y'"
proof -
  have "\<not> x < x'" using assms by linarith
  moreover have "\<not> x' < x" using assms by linarith
  ultimately have "x = x'" by linarith
  with assms show ?thesis by simp
qed

lemma digits2_inj:
  assumes "digits2 a b = Some v" "digits2 a' b' = Some v"
  shows "a = a' \<and> b = b'"
proof -
  from assms have d: "is_digit a" "is_digit b" "is_digit a'" "is_digit b'"
    and e: "10 * digit_val a + digit_val b = 10 * digit_val a' + digit_val b'"
    by (auto simp: digits2_def split: if_splits)
  have "digit_val a = digit_val a' \<and> digit_val b = digit_val b'"
    using base10_unique[OF _ _ _ _ e] digit_val_range[OF d(2)] digit_val_range[OF d(4)] by simp
  then show ?thesis by (simp add: digit_val_inj)
qed

lemma digits4_inj:
  assumes "digits4 a b c d = Some v" "digits4 a' b' c' d' = Some v"
  shows "a = a' \<and> b = b' \<and> c = c' \<and> d = d'"
proof -
  from assms have g: "is_digit a" "is_digit b" "is_digit c" "is_digit d"
      "is_digit a'" "is_digit b'" "is_digit c'" "is_digit d'"
    and e: "1000 * digit_val a + 100 * digit_val b + 10 * digit_val c + digit_val d
          = 1000 * digit_val a' + 100 * digit_val b' + 10 * digit_val c' + digit_val d'"
    by (auto simp: digits4_def split: if_splits)
  have e1: "10 * (100 * digit_val a + 10 * digit_val b + digit_val c) + digit_val d
          = 10 * (100 * digit_val a' + 10 * digit_val b' + digit_val c') + digit_val d'"
    using e by simp
  have s1: "100 * digit_val a + 10 * digit_val b + digit_val c
          = 100 * digit_val a' + 10 * digit_val b' + digit_val c'" and d: "digit_val d = digit_val d'"
    using base10_unique[OF _ _ _ _ e1] digit_val_range[OF g(4)] digit_val_range[OF g(8)] by simp_all
  have e2: "10 * (10 * digit_val a + digit_val b) + digit_val c
          = 10 * (10 * digit_val a' + digit_val b') + digit_val c'"
    using s1 by simp
  have s2: "10 * digit_val a + digit_val b = 10 * digit_val a' + digit_val b'"
    and c: "digit_val c = digit_val c'"
    using base10_unique[OF _ _ _ _ e2] digit_val_range[OF g(3)] digit_val_range[OF g(7)] by simp_all
  have "digit_val a = digit_val a' \<and> digit_val b = digit_val b'"
    using base10_unique[OF _ _ _ _ s2] digit_val_range[OF g(2)] digit_val_range[OF g(6)] by simp
  with c d show ?thesis by (simp add: digit_val_inj)
qed

lemma digits2_not_space: "digits2 a b = Some v \<Longrightarrow> a \<noteq> CHR '' '' \<and> b \<noteq> CHR '' ''"
  by (auto simp: digits2_def is_digit_def split: if_splits)

lemma digits4_not_space:
  "digits4 a b c d = Some v \<Longrightarrow> a \<noteq> CHR '' '' \<and> b \<noteq> CHR '' '' \<and> c \<noteq> CHR '' '' \<and> d \<noteq> CHR '' ''"
  by (auto simp: digits4_def is_digit_def split: if_splits)

lemma parse_date_shape:
  assumes "parse_date s = Some (y, m, d)"
  obtains y1 y2 y3 y4 m1 m2 d1 d2 where
    "s = [y1, y2, y3, y4, CHR ''-'', m1, m2, CHR ''-'', d1, d2]"
    "digits4 y1 y2 y3 y4 = Some y" "digits2 m1 m2 = Some m" "digits2 d1 d2 = Some d"
    "valid_md y m d"
  using assms unfolding parse_date_def valid_md_def
  by (auto split: list.splits if_splits option.splits)

lemma parse_date_inj:
  assumes "parse_date s = Some t" "parse_date s' = Some t"
  shows "s = s'"
proof -
  obtain y m d where t: "t = (y, m, d)" by (cases t)
  from assms(1) t obtain y1 y2 y3 y4 m1 m2 d1 d2 where
    s: "s = [y1, y2, y3, y4, CHR ''-'', m1, m2, CHR ''-'', d1, d2]"
    and p: "digits4 y1 y2 y3 y4 = Some y" "digits2 m1 m2 = Some m" "digits2 d1 d2 = Some d"
    by (auto elim: parse_date_shape)
  from assms(2) t obtain z1 z2 z3 z4 n1 n2 e1 e2 where
    s': "s' = [z1, z2, z3, z4, CHR ''-'', n1, n2, CHR ''-'', e1, e2]"
    and p': "digits4 z1 z2 z3 z4 = Some y" "digits2 n1 n2 = Some m" "digits2 e1 e2 = Some d"
    by (auto elim: parse_date_shape)
  show ?thesis
    using digits4_inj[OF p(1) p'(1)] digits2_inj[OF p(2) p'(2)] digits2_inj[OF p(3) p'(3)]
    by (simp add: s s')
qed

lemma parse_date_no_space:
  assumes "parse_date s = Some t"
  shows "\<forall>c\<in>set s. c \<noteq> CHR '' ''"
proof -
  obtain y m d where t: "t = (y, m, d)" by (cases t)
  from assms t obtain y1 y2 y3 y4 m1 m2 d1 d2 where
    s: "s = [y1, y2, y3, y4, CHR ''-'', m1, m2, CHR ''-'', d1, d2]"
    and p: "digits4 y1 y2 y3 y4 = Some y" "digits2 m1 m2 = Some m" "digits2 d1 d2 = Some d"
    by (auto elim: parse_date_shape)
  show ?thesis
    using digits4_not_space[OF p(1)] digits2_not_space[OF p(2)] digits2_not_space[OF p(3)]
    by (simp add: s)
qed

lemma parse_date_valid: "parse_date s = Some (y, m, d) \<Longrightarrow> valid_md y m d"
  by (auto elim: parse_date_shape)

lemma Date_value_inj:
  assumes "Date_value a = Some v" "Date_value b = Some v"
  shows "a = b"
proof -
  from assms(1) obtain y m d where a: "parse_date a = Some (y, m, d)" "v = MakeDay y m d * 86400000"
    by (auto simp: Date_value_def split: option.splits)
  from assms(2) obtain y' m' d' where b: "parse_date b = Some (y', m', d')" "v = MakeDay y' m' d' * 86400000"
    by (auto simp: Date_value_def split: option.splits)
  from a(2) b(2) have "MakeDay y m d = MakeDay y' m' d'" by simp
  then have "(y, m, d) = (y', m', d')"
    using MakeDay_inj[OF parse_date_valid[OF a(1)] parse_date_valid[OF b(1)]] by simp
  with a(1) b(1) show ?thesis by (simp add: parse_date_inj)
qed

lemma stamp_ok_split:
  assumes "stamp_ok s"
  shows "split_first s = take 10 s \<and> Date_value (split_first s) \<noteq> None"
proof -
  from assms have len: "length s = 19" and sp: "s ! 10 = CHR '' ''"
    and pd: "parse_date (take 10 s) \<noteq> None"
    by (auto simp: stamp_ok_def Date_getHours_def split: if_splits option.splits)
  from pd obtain t where t: "parse_date (take 10 s) = Some t" by auto
  have ns: "\<forall>c\<in>set (take 10 s). c \<noteq> CHR '' ''" using parse_date_no_space[OF t] .
  have "s = take 10 s @ s ! 10 # drop 11 s"
    using id_take_nth_drop[of 10 s] len by simp
  then have "split_first s = takeWhile (\<lambda>c. c \<noteq> CHR '' '') (take 10 s @ s ! 10 # drop 11 s)"
    by (simp add: split_first_def)
  also have "\<dots> = take 10 s"
    using ns sp by (simp del: append_take_drop_id)
  finally have a: "split_first s = take 10 s" .
  with t show ?thesis by (auto simp: Date_value_def split: prod.splits)
qed

section \<open>Grouping and sorting\<close>

lemma Map_get_map_of: "Map_get m k = map_of m k"
  by (induction m) auto

lemma Map_has_iff: "Map_has m k \<longleftrightarrow> k \<in> fst ` set m"
  by (induction m) auto

lemma keys_Map_set:
  "map fst (Map_set m k v) = (if k \<in> fst ` set m then map fst m else map fst m @ [k])"
proof (induction m)
  case Nil
  show ?case by simp
next
  case (Cons p m)
  obtain k' v' where p: "p = (k', v')" by (cases p)
  show ?case
  proof (cases "k' = k")
    case True
    then show ?thesis by (simp add: p)
  next
    case False
    then have "k \<in> fst ` set (p # m) \<longleftrightarrow> k \<in> fst ` set m" by (auto simp: p)
    then show ?thesis using False Cons.IH by (simp add: p)
  qed
qed

lemma set_Map_set_keys: "fst ` set (Map_set m k v) = insert k (fst ` set m)"
proof -
  have "set (map fst (Map_set m k v)) = insert k (fst ` set m)"
    unfolding keys_Map_set by auto
  then show ?thesis by simp
qed

lemma map_of_Map_set: "map_of (Map_set m k v) = (map_of m)(k \<mapsto> v)"
  by (induction m) (auto simp: fun_eq_iff)

lemma group_step_get: "Map_get (if \<not> Map_has m k then Map_set m k [] else m) k \<noteq> None"
  by (simp add: Map_get_map_of Map_has_iff map_of_Map_set map_of_eq_None_iff[symmetric])

lemma keys_group_step:
  "map fst (group_step m i) =
     (if date_key i \<in> fst ` set m then map fst m else map fst m @ [date_key i])"
  by (auto simp: group_step_def date_key_def Let_def Map_has_iff Map_get_map_of keys_Map_set
      set_Map_set_keys map_of_Map_set map_of_eq_None_iff split: option.splits)

lemma map_of_group_step:
  "map_of (group_step m i) =
     (map_of m)(date_key i \<mapsto> (case map_of m (date_key i) of None \<Rightarrow> [i] | Some arr \<Rightarrow> arr @ [i]))"
  by (auto simp: group_step_def date_key_def Let_def Map_has_iff Map_get_map_of
      map_of_Map_set map_of_eq_None_iff[symmetric] fun_eq_iff split: option.splits)

lemma distinct_group_step: "distinct (map fst m) \<Longrightarrow> distinct (map fst (group_step m i))"
  by (simp add: keys_group_step)

lemma distinct_foldl_group:
  "distinct (map fst m) \<Longrightarrow> distinct (map fst (foldl group_step m list))"
  by (induction list arbitrary: m) (simp_all add: distinct_group_step)

lemma map_of_foldl_group:
  "map_of (foldl group_step m list) k =
     (case map_of m k of
        None \<Rightarrow> (if filter (\<lambda>i. date_key i = k) list = [] then None
                  else Some (filter (\<lambda>i. date_key i = k) list))
      | Some arr \<Rightarrow> Some (arr @ filter (\<lambda>i. date_key i = k) list))"
proof (induction list arbitrary: m)
  case Nil
  show ?case by (simp split: option.splits)
next
  case (Cons i list)
  show ?case
    by (simp add: Cons.IH map_of_group_step split: option.splits)
qed

lemma group_by_date_distinct: "distinct (map fst (group_by_date list))"
  by (simp add: group_by_date_def distinct_foldl_group)

lemma group_by_date_entry:
  "(k, items) \<in> set (group_by_date list) \<longleftrightarrow>
     items = filter (\<lambda>i. date_key i = k) list \<and> items \<noteq> []"
proof -
  have "(k, items) \<in> set (group_by_date list) \<longleftrightarrow> map_of (group_by_date list) k = Some items"
    using group_by_date_distinct by simp
  also have "\<dots> \<longleftrightarrow> items = filter (\<lambda>i. date_key i = k) list \<and> items \<noteq> []"
    by (auto simp: group_by_date_def map_of_foldl_group)
  finally show ?thesis .
qed

lemma group_by_date_keys: "fst ` set (group_by_date list) = date_key ` set list"
proof (rule set_eqI)
  fix k
  have "k \<in> fst ` set (group_by_date list) \<longleftrightarrow> (\<exists>items. (k, items) \<in> set (group_by_date list))"
    by force
  also have "\<dots> \<longleftrightarrow> filter (\<lambda>i. date_key i = k) list \<noteq> []"
    by (simp add: group_by_date_entry)
  also have "\<dots> \<longleftrightarrow> k \<in> date_key ` set list"
    by (auto simp: filter_empty_conv)
  finally show "k \<in> fst ` set (group_by_date list) \<longleftrightarrow> k \<in> date_key ` set list" .
qed

lemma set_insert_sorted: "set (insert_sorted cmp x ys) = insert x (set ys)"
  by (induction ys) auto

lemma set_Array_sort: "set (Array_sort cmp xs) = set xs"
  by (induction xs) (simp_all add: Array_sort_def set_insert_sorted)

lemma distinct_keys_insert_sorted:
  "distinct (map fst (insert_sorted cmp x ys)) \<longleftrightarrow> fst x \<notin> fst ` set ys \<and> distinct (map fst ys)"
  by (induction ys) (auto simp: set_insert_sorted)

lemma distinct_keys_Array_sort:
  "distinct (map fst (Array_sort cmp xs)) \<longleftrightarrow> distinct (map fst xs)"
  by (induction xs) (simp_all add: Array_sort_def distinct_keys_insert_sorted set_Array_sort[unfolded Array_sort_def])

lemma cmp_pos_by_date:
  "Date_value (fst a) \<noteq> None \<Longrightarrow> Date_value (fst b) \<noteq> None \<Longrightarrow>
   cmp_pos (by_date a b) \<longleftrightarrow> time_of b < time_of a"
  by (auto simp: cmp_pos_def by_date_def num_sub_def time_of_def)

lemma sorted_insert_sorted:
  assumes "\<forall>e\<in>set (x # ys). Date_value (fst e) \<noteq> None"
    and "sorted_wrt (\<lambda>a b. time_of a \<le> time_of b) ys"
  shows "sorted_wrt (\<lambda>a b. time_of a \<le> time_of b) (insert_sorted by_date x ys)"
  using assms
proof (induction ys)
  case Nil
  show ?case by simp
next
  case (Cons y ys)
  then show ?case
    by (auto simp: cmp_pos_by_date set_insert_sorted)
qed

lemma sorted_Array_sort:
  "\<forall>e\<in>set xs. Date_value (fst e) \<noteq> None \<Longrightarrow>
   sorted_wrt (\<lambda>a b. time_of a \<le> time_of b) (Array_sort by_date xs)"
proof (induction xs)
  case Nil
  show ?case by (simp add: Array_sort_def)
next
  case (Cons x xs)
  have "sorted_wrt (\<lambda>a b. time_of a \<le> time_of b) (insert_sorted by_date x (Array_sort by_date xs))"
    using Cons by (intro sorted_insert_sorted) (simp_all add: set_Array_sort)
  then show ?case by (simp add: Array_sort_def)
qed

section \<open>One day\<close>

lemma Array_map_Inr: "Array_map f xs = Inr ys \<Longrightarrow> list_all2 (\<lambda>x y. f x = Inr y) xs ys"
proof (induction xs arbitrary: ys)
  case Nil
  then show ?case by simp
next
  case (Cons x xs)
  then show ?case by (auto split: sum.splits)
qed

lemma Array_map_total: "\<forall>x\<in>set xs. \<exists>y. f x = Inr y \<Longrightarrow> \<exists>ys. Array_map f xs = Inr ys"
  by (induction xs) (auto split: sum.splits)

lemma Math_min_fold: "Math_min x xs = fold min xs x"
  by (induction xs arbitrary: x) (simp_all add: min.commute)

lemma Math_max_fold: "Math_max x xs = fold max xs x"
  by (induction xs arbitrary: x) (simp_all add: max.commute)

lemma Math_min_Min: "Math_min x xs = Min (set (x # xs))"
  by (simp only: Math_min_fold Min.set_eq_fold)

lemma Math_max_Max: "Math_max x xs = Max (set (x # xs))"
  by (simp only: Math_max_fold Max.set_eq_fold)

lemma Math_round_nearest: "\<bar>of_int (Math_round x) - x\<bar> \<le> \<bar>of_int k - x\<bar>"
proof -
  define r where "r = Math_round x"
  have lo: "of_int r \<le> x + 1 / 2" and hi: "x + 1 / 2 < of_int r + 1"
    unfolding r_def Math_round_def by linarith+
  consider "k = r" | "r + 1 \<le> k" | "k \<le> r - 1" by linarith
  then show ?thesis
  proof cases
    case 1
    then show ?thesis by (simp add: r_def)
  next
    case 2
    then have "(of_int r :: rat) + 1 \<le> of_int k" by (metis of_int_1 of_int_add of_int_le_iff)
    with lo hi show ?thesis unfolding r_def[symmetric] by linarith
  next
    case 3
    then have "(of_int k :: rat) \<le> of_int r - 1" by (metis of_int_1 of_int_diff of_int_le_iff)
    with lo hi show ?thesis unfolding r_def[symmetric] by linarith
  qed
qed

lemma num_lt_noon_dist:
  "stamp_ok (dt_txt i) \<Longrightarrow> stamp_ok (dt_txt b) \<Longrightarrow>
   num_lt (noon_dist i) (noon_dist b) \<longleftrightarrow> dist_of i < dist_of b"
  by (auto simp: stamp_ok_def num_lt_def noon_dist_def Math_abs_def num_sub_def dist_of_def)

lemma pick_best_first_min:
  assumes "\<forall>x\<in>set (b # xs). stamp_ok (dt_txt x)"
  shows "\<exists>n<length (b # xs). pick_best b xs = (b # xs) ! n
           \<and> (\<forall>j<length (b # xs). dist_of ((b # xs) ! n) \<le> dist_of ((b # xs) ! j))
           \<and> (\<forall>j<n. dist_of ((b # xs) ! n) < dist_of ((b # xs) ! j))"
  using assms
proof (induction xs arbitrary: b)
  case Nil
  show ?case by simp
next
  case (Cons x xs)
  show ?case
  proof (cases "dist_of x < dist_of b")
    case True
    then have pb: "pick_best b (x # xs) = pick_best x xs"
      using Cons.prems by (simp add: num_lt_noon_dist)
    from Cons.IH[of x] Cons.prems obtain n where n: "n < length (x # xs)"
      "pick_best x xs = (x # xs) ! n"
      "\<forall>j<length (x # xs). dist_of ((x # xs) ! n) \<le> dist_of ((x # xs) ! j)"
      "\<forall>j<n. dist_of ((x # xs) ! n) < dist_of ((x # xs) ! j)"
      by auto
    from n(3) have le_x: "dist_of ((x # xs) ! n) \<le> dist_of x" by force
    have a: "\<forall>j<length (b # x # xs). dist_of ((b # x # xs) ! Suc n) \<le> dist_of ((b # x # xs) ! j)"
    proof (intro allI impI)
      fix j assume "j < length (b # x # xs)"
      then show "dist_of ((b # x # xs) ! Suc n) \<le> dist_of ((b # x # xs) ! j)"
        using n(3) le_x True by (cases j) auto
    qed
    have c: "\<forall>j<Suc n. dist_of ((b # x # xs) ! Suc n) < dist_of ((b # x # xs) ! j)"
    proof (intro allI impI)
      fix j assume "j < Suc n"
      then show "dist_of ((b # x # xs) ! Suc n) < dist_of ((b # x # xs) ! j)"
        using n(4) le_x True by (cases j) auto
    qed
    show ?thesis
      using n(1,2) a c pb by (intro exI[of _ "Suc n"]) simp
  next
    case False
    then have pb: "pick_best b (x # xs) = pick_best b xs"
      using Cons.prems by (simp add: num_lt_noon_dist)
    from Cons.IH[of b] Cons.prems obtain n where n: "n < length (b # xs)"
      "pick_best b xs = (b # xs) ! n"
      "\<forall>j<length (b # xs). dist_of ((b # xs) ! n) \<le> dist_of ((b # xs) ! j)"
      "\<forall>j<n. dist_of ((b # xs) ! n) < dist_of ((b # xs) ! j)"
      by auto
    from n(3) have le_b: "dist_of ((b # xs) ! n) \<le> dist_of b" by force
    show ?thesis
    proof (cases n)
      case 0
      have "\<forall>j<length (b # x # xs). dist_of b \<le> dist_of ((b # x # xs) ! j)"
      proof (intro allI impI)
        fix j assume j: "j < length (b # x # xs)"
        show "dist_of b \<le> dist_of ((b # x # xs) ! j)"
        proof (cases j)
          case 0 then show ?thesis by simp
        next
          case (Suc j')
          show ?thesis
          proof (cases j')
            case 0 with Suc False show ?thesis by simp
          next
            case (Suc j'')
            with \<open>j = Suc j'\<close> j n(3) \<open>n = 0\<close> show ?thesis
              by (auto dest: spec[of _ "Suc j''"])
          qed
        qed
      qed
      then show ?thesis
        using pb n(2) 0 by (intro exI[of _ 0]) simp
    next
      case (Suc m)
      have lt_b: "dist_of ((b # xs) ! n) < dist_of b" using n(4) Suc by force
      have a: "\<forall>j<length (b # x # xs). dist_of ((b # x # xs) ! Suc n) \<le> dist_of ((b # x # xs) ! j)"
      proof (intro allI impI)
        fix j assume j: "j < length (b # x # xs)"
        show "dist_of ((b # x # xs) ! Suc n) \<le> dist_of ((b # x # xs) ! j)"
        proof (cases j)
          case 0 then show ?thesis using lt_b Suc by simp
        next
          case (Suc j')
          show ?thesis
          proof (cases j')
            case 0 with \<open>j = Suc j'\<close> False lt_b \<open>n = Suc m\<close> show ?thesis by simp
          next
            case (Suc j'')
            with \<open>j = Suc j'\<close> j n(3) \<open>n = Suc m\<close> show ?thesis
              by (auto dest: spec[of _ "Suc j''"])
          qed
        qed
      qed
      have c: "\<forall>j<Suc n. dist_of ((b # x # xs) ! Suc n) < dist_of ((b # x # xs) ! j)"
      proof (intro allI impI)
        fix j assume j: "j < Suc n"
        show "dist_of ((b # x # xs) ! Suc n) < dist_of ((b # x # xs) ! j)"
        proof (cases j)
          case 0 then show ?thesis using lt_b Suc by simp
        next
          case (Suc j')
          show ?thesis
          proof (cases j')
            case 0 with \<open>j = Suc j'\<close> False lt_b \<open>n = Suc m\<close> show ?thesis by simp
          next
            case (Suc j'')
            with \<open>j = Suc j'\<close> j n(4) \<open>n = Suc m\<close> show ?thesis
              by (auto dest: spec[of _ "Suc j''"])
          qed
        qed
      qed
      show ?thesis
        using n(1,2) a c pb Suc by (intro exI[of _ "Suc n"]) simp
    qed
  qed
qed

section \<open>The result of \<open>buildDaily\<close>\<close>

lemma pick_best_self: "pick_best i0 (i0 # rest) = pick_best i0 rest"
  by (simp add: num_lt_def split: option.splits)

lemma pick_best_mem: "pick_best b xs \<in> set (b # xs)"
  by (induction xs arbitrary: b) auto

lemma summarize_Inr:
  assumes "summarize (k, items) = Inr e"
  shows "items \<noteq> []"
    and "date e = k"
    and "min_day e = Math_round (Min ((\<lambda>i. temp_min (main i)) ` set items))"
    and "max_day e = Math_round (Max ((\<lambda>i. temp_max (main i)) ` set items))"
    and "\<exists>w ws. weather (pick_best (hd items) (tl items)) = w # ws
            \<and> icon_day e = icon w \<and> desc e = main_w w"
proof -
  from assms obtain i0 rest where items: "items = i0 # rest"
    by (cases items) (auto simp: summarize_def)
  from assms items obtain w ws where w: "weather (pick_best i0 rest) = w # ws"
    and e: "e = \<lparr> date = k,
          min_day = Math_round (Math_min (temp_min (main i0)) (map (\<lambda>i. temp_min (main i)) rest)),
          max_day = Math_round (Math_max (temp_max (main i0)) (map (\<lambda>i. temp_max (main i)) rest)),
          icon_day = icon w, desc = main_w w \<rparr>"
    by (auto simp: summarize_def Let_def pick_best_self split: list.splits)
  show "items \<noteq> []" by (simp add: items)
  show "date e = k" by (simp add: e)
  show "min_day e = Math_round (Min ((\<lambda>i. temp_min (main i)) ` set items))"
    by (simp add: e items Math_min_Min)
  show "max_day e = Math_round (Max ((\<lambda>i. temp_max (main i)) ` set items))"
    by (simp add: e items Math_max_Max)
  show "\<exists>w ws. weather (pick_best (hd items) (tl items)) = w # ws
            \<and> icon_day e = icon w \<and> desc e = main_w w"
    using w by (simp add: e items)
qed

lemma summarize_total:
  assumes "items \<noteq> []" "\<forall>i\<in>set items. weather i \<noteq> []"
  shows "\<exists>e. summarize (k, items) = Inr e"
proof -
  from assms(1) obtain i0 rest where items: "items = i0 # rest" by (cases items) auto
  have "pick_best i0 items \<in> set items"
    using pick_best_mem[of i0 items] by (auto simp: items)
  with assms(2) have "weather (pick_best i0 items) \<noteq> []" by blast
  then show ?thesis
    by (auto simp: summarize_def Let_def items split: list.splits)
qed

text \<open>What a returned list is made of.\<close>

lemma buildDaily_Inr:
  assumes "buildDaily list = Inr out"
  obtains ys where
    "Array_map summarize (Array_sort by_date (group_by_date list)) = Inr ys"
    "out = take 5 ys"
    "list_all2 (\<lambda>x y. summarize x = Inr y) (Array_sort by_date (group_by_date list)) ys"
  using assms Array_map_Inr[of summarize "Array_sort by_date (group_by_date list)"]
  by (auto simp: buildDaily_def split: sum.splits)

lemma list_all2_summarize_dates:
  "list_all2 (\<lambda>x y. summarize x = Inr y) xs ys \<Longrightarrow> map date ys = map fst xs"
proof (induction rule: list_all2_induct)
  case Nil
  show ?case by simp
next
  case (Cons x xs y ys)
  obtain k items where x: "x = (k, items)" by (cases x)
  with Cons show ?case using summarize_Inr(2)[of k items y] by simp
qed

lemma buildDaily_dates:
  assumes "buildDaily list = Inr out"
  shows "map date out = take 5 (map fst (Array_sort by_date (group_by_date list)))"
proof -
  from assms obtain ys where ys: "out = take 5 ys"
    "list_all2 (\<lambda>x y. summarize x = Inr y) (Array_sort by_date (group_by_date list)) ys"
    by (rule buildDaily_Inr)
  show ?thesis
    by (simp only: ys(1) take_map[symmetric] list_all2_summarize_dates[OF ys(2)])
qed

lemma buildDaily_entry:
  assumes "buildDaily list = Inr out" "e \<in> set out"
  shows "summarize (date e, filter (\<lambda>i. date_key i = date e) list) = Inr e"
proof -
  from assms(1) obtain ys where ys: "out = take 5 ys"
    "list_all2 (\<lambda>x y. summarize x = Inr y) (Array_sort by_date (group_by_date list)) ys"
    by (rule buildDaily_Inr)
  from assms(2) ys(1) have "e \<in> set ys" by (auto dest: in_set_takeD)
  then obtain n where n: "n < length ys" "ys ! n = e" by (auto simp: in_set_conv_nth)
  define x where "x = Array_sort by_date (group_by_date list) ! n"
  have x: "x \<in> set (Array_sort by_date (group_by_date list))" "summarize x = Inr e"
    using ys(2) n by (auto simp: x_def list_all2_conv_all_nth)
  obtain k items where kx: "x = (k, items)" by (cases x)
  from x(1) kx have "(k, items) \<in> set (group_by_date list)" by (simp add: set_Array_sort)
  then have items: "items = filter (\<lambda>i. date_key i = k) list" by (simp add: group_by_date_entry)
  from x(2) kx have "date e = k" by (simp add: summarize_Inr(2))
  with x(2) kx items show ?thesis by simp
qed

lemma buildDaily_total:
  assumes "\<forall>i\<in>set list. weather i \<noteq> []"
  shows "\<exists>out. buildDaily list = Inr out"
proof -
  have "\<forall>x\<in>set (Array_sort by_date (group_by_date list)). \<exists>y. summarize x = Inr y"
  proof
    fix x assume "x \<in> set (Array_sort by_date (group_by_date list))"
    then have x: "x \<in> set (group_by_date list)" by (simp add: set_Array_sort)
    obtain k items where kx: "x = (k, items)" by (cases x)
    from x kx have "(k, items) \<in> set (group_by_date list)" by simp
    then have "items = filter (\<lambda>i. date_key i = k) list" and "items \<noteq> []"
      using group_by_date_entry[of k items list] by blast+
    then have "\<forall>i\<in>set items. weather i \<noteq> []" using assms by auto
    with \<open>items \<noteq> []\<close> show "\<exists>y. summarize x = Inr y"
      unfolding kx by (rule summarize_total)
  qed
  then obtain ys where "Array_map summarize (Array_sort by_date (group_by_date list)) = Inr ys"
    using Array_map_total by blast
  then show ?thesis by (simp add: buildDaily_def)
qed

lemma sorted_wrt_strict:
  assumes "sorted_wrt (\<lambda>a b. f a \<le> (f b :: int)) xs" "distinct (map f xs)"
  shows "sorted_wrt (\<lambda>a b. f a < f b) xs"
  using assms by (induction xs) (auto simp: order_less_le)

lemma sorted_wrt_take: "sorted_wrt P xs \<Longrightarrow> sorted_wrt P (take n xs)"
  by (metis append_take_drop_id sorted_wrt_append)

lemma num_lt_Date_value:
  "Date_value (fst a) \<noteq> None \<Longrightarrow> Date_value (fst b) \<noteq> None \<Longrightarrow>
   num_lt (Date_value (fst a)) (Date_value (fst b)) \<longleftrightarrow> time_of a < time_of b"
  by (auto simp: time_of_def num_lt_def)

section \<open>Properties of \<open>buildDaily\<close>\<close>

subsection \<open>The sample forecast\<close>

lemma buildDaily_forecast0: "buildDaily forecast0 = Inr days0"
  by code_simp

lemma forecast0_ok: "\<forall>i\<in>set forecast0. stamp_ok (dt_txt i)"
  by code_simp

lemma group1_eq: "filter (\<lambda>i. date_key i = ''2024-03-01'') forecast0 = group1"
  by code_simp

lemma day1_in: "day1 \<in> set days0"
  by (simp add: day1_def days0_def)

lemma date_day1: "date day1 = ''2024-03-01''"
  by (simp add: day1_def)

lemma stamp_ok_dist:
  "stamp_ok (dt_txt i) \<Longrightarrow> \<exists>h. Date_getHours (dt_txt i) = Some h \<and> dist_of i = \<bar>h - 12\<bar>"
  by (auto simp: stamp_ok_def dist_of_def)

subsection \<open>The claims\<close>

text \<open>
  C1. Whatever the list of samples, the list \<open>buildDaily\<close> returns has at most five
  entries and one entry per calendar date at most. When the timestamps are in the
  provider's form \<open>YYYY-MM-DD HH:MM:SS\<close>, the dates of the entries are strictly
  increasing: each is earlier, as a time value, than every one after it.
\<close>

theorem buildDaily_capped_and_increasing:
  assumes "buildDaily list = Inr out"
  shows "length out \<le> 5 \<and> distinct (map date out) \<and>
         ((\<forall>i\<in>set list. stamp_ok (dt_txt i)) \<longrightarrow>
            sorted_wrt (\<lambda>a b. num_lt (Date_value (date a)) (Date_value (date b))) out)"
proof (intro conjI impI)
  let ?srt = "Array_sort by_date (group_by_date list)"
  from assms obtain ys where ys: "out = take 5 ys"
    "list_all2 (\<lambda>x y. summarize x = Inr y) ?srt ys"
    by (rule buildDaily_Inr)
  have dates: "map date out = take 5 (map fst ?srt)" using assms by (rule buildDaily_dates)
  show "length out \<le> 5" by (simp add: ys(1))
  have dk: "distinct (map fst ?srt)"
    by (simp add: distinct_keys_Array_sort group_by_date_distinct)
  then show "distinct (map date out)" by (simp add: dates)
  assume ok: "\<forall>i\<in>set list. stamp_ok (dt_txt i)"
  have defined: "\<forall>x\<in>set (group_by_date list). Date_value (fst x) \<noteq> None"
  proof
    fix x assume "x \<in> set (group_by_date list)"
    then have "fst x \<in> date_key ` set list" using group_by_date_keys[of list] by force
    then obtain i where "i \<in> set list" "fst x = split_first (dt_txt i)"
      by (auto simp: date_key_def)
    with ok show "Date_value (fst x) \<noteq> None" using stamp_ok_split[of "dt_txt i"] by metis
  qed
  then have srt: "sorted_wrt (\<lambda>a b. time_of a \<le> time_of b) ?srt" by (rule sorted_Array_sort)
  have inj: "time_of a \<noteq> time_of b" if "a \<in> set ?srt" "b \<in> set ?srt" "fst a \<noteq> fst b" for a b
  proof -
    from that(1) defined obtain u where u: "Date_value (fst a) = Some u"
      by (auto simp: set_Array_sort)
    from that(2) defined obtain v where v: "Date_value (fst b) = Some v"
      by (auto simp: set_Array_sort)
    from u v that(3) show ?thesis using Date_value_inj[of "fst a" u "fst b"] by (auto simp: time_of_def)
  qed
  have "inj_on time_of (set ?srt)"
  proof (rule inj_onI)
    fix a b assume ab: "a \<in> set ?srt" "b \<in> set ?srt" "time_of a = time_of b"
    then have "fst a = fst b" using inj[of a b] by blast
    with ab(1,2) dk show "a = b" by (auto simp: distinct_map dest: inj_onD)
  qed
  with dk have "distinct (map time_of ?srt)" by (simp add: distinct_map)
  with srt have strict: "sorted_wrt (\<lambda>a b. time_of a < time_of b) ?srt" by (rule sorted_wrt_strict)
  have "sorted_wrt (\<lambda>a b. num_lt (Date_value a) (Date_value b)) (map fst ?srt)"
    unfolding sorted_wrt_map
  proof (rule sorted_wrt_mono_rel[OF _ strict])
    fix a b assume "a \<in> set ?srt" "b \<in> set ?srt" "time_of a < time_of b"
    then show "num_lt (Date_value (fst a)) (Date_value (fst b))"
      using defined by (simp add: set_Array_sort num_lt_Date_value)
  qed
  then have "sorted_wrt (\<lambda>a b. num_lt (Date_value a) (Date_value b)) (map date out)"
    unfolding dates by (rule sorted_wrt_take)
  then show "sorted_wrt (\<lambda>a b. num_lt (Date_value (date a)) (Date_value (date b))) out"
    by (simp add: sorted_wrt_map)
qed

theorem buildDaily_capped_and_increasing_witness:
  "buildDaily forecast0 = Inr days0 \<and> length days0 \<le> 5 \<and> distinct (map date days0) \<and>
   list_all (\<lambda>i. stamp_ok (dt_txt i)) forecast0 \<and>
   sorted_wrt (\<lambda>a b. num_lt (Date_value (date a)) (Date_value (date b))) days0"
  using buildDaily_capped_and_increasing[OF buildDaily_forecast0] forecast0_ok
    buildDaily_forecast0
  by (simp only: list_all_iff)

text \<open>
  C2. Every entry of the returned list stands for the samples of its date, of which
  there is at least one: its \<open>min\<close> is the least \<open>temp_min\<close> among them rounded by
  \<open>Math.round\<close>, its \<open>max\<close> the greatest \<open>temp_max\<close> among them rounded, and each is
  an integer nearest to the value it rounds. Every entry's date is the date of some
  sample, and when the samples have five dates or fewer every date has its entry.
\<close>

theorem buildDaily_min_max:
  assumes "buildDaily list = Inr out"
  shows "(\<forall>e\<in>set out.
           let g = filter (\<lambda>i. date_key i = date e) list;
               lo = Min ((\<lambda>i. temp_min (main i)) ` set g);
               hi = Max ((\<lambda>i. temp_max (main i)) ` set g)
           in g \<noteq> [] \<and> min_day e = Math_round lo \<and> max_day e = Math_round hi
              \<and> (\<forall>k. \<bar>of_int (min_day e) - lo\<bar> \<le> \<bar>of_int k - lo\<bar>)
              \<and> (\<forall>k. \<bar>of_int (max_day e) - hi\<bar> \<le> \<bar>of_int k - hi\<bar>))
       \<and> date ` set out \<subseteq> date_key ` set list
       \<and> (card (date_key ` set list) \<le> 5 \<longrightarrow> date ` set out = date_key ` set list)"
proof (intro conjI ballI impI)
  fix e assume e: "e \<in> set out"
  let ?g = "filter (\<lambda>i. date_key i = date e) list"
  have s: "summarize (date e, ?g) = Inr e" using assms e by (rule buildDaily_entry)
  show "let g = ?g;
            lo = Min ((\<lambda>i. temp_min (main i)) ` set g);
            hi = Max ((\<lambda>i. temp_max (main i)) ` set g)
        in g \<noteq> [] \<and> min_day e = Math_round lo \<and> max_day e = Math_round hi
           \<and> (\<forall>k. \<bar>of_int (min_day e) - lo\<bar> \<le> \<bar>of_int k - lo\<bar>)
           \<and> (\<forall>k. \<bar>of_int (max_day e) - hi\<bar> \<le> \<bar>of_int k - hi\<bar>)"
    unfolding Let_def
    using summarize_Inr(1)[OF s] summarize_Inr(3)[OF s] summarize_Inr(4)[OF s]
    by (simp add: Math_round_nearest)
next
  let ?srt = "Array_sort by_date (group_by_date list)"
  have dates: "map date out = take 5 (map fst ?srt)" using assms by (rule buildDaily_dates)
  have keys: "set (map fst ?srt) = date_key ` set list"
    using group_by_date_keys[of list] by (simp add: set_Array_sort)
  have "set (map date out) \<subseteq> set (map fst ?srt)"
    unfolding dates by (rule set_take_subset)
  then show "date ` set out \<subseteq> date_key ` set list" using keys by simp
  assume c: "card (date_key ` set list) \<le> 5"
  have "distinct (map fst ?srt)"
    by (simp add: distinct_keys_Array_sort group_by_date_distinct)
  then have "length (map fst ?srt) = card (date_key ` set list)"
    using keys distinct_card[of "map fst ?srt"] by simp
  with c have "take 5 (map fst ?srt) = map fst ?srt" by simp
  with dates keys have "set (map date out) = date_key ` set list" by simp
  then show "date ` set out = date_key ` set list" by simp
qed

theorem buildDaily_min_max_witness:
  "buildDaily forecast0 = Inr days0 \<and> day1 \<in> set days0 \<and>
   filter (\<lambda>i. date_key i = date day1) forecast0 = group1 \<and>
   Min ((\<lambda>i. temp_min (main i)) ` set group1) = 48 / 5 \<and> min_day day1 = 10 \<and>
   Max ((\<lambda>i. temp_max (main i)) ` set group1) = 25 / 2 \<and> max_day day1 = 13 \<and>
   min_day day1 = Math_round (Min ((\<lambda>i. temp_min (main i)) ` set group1)) \<and>
   max_day day1 = Math_round (Max ((\<lambda>i. temp_max (main i)) ` set group1))"
proof -
  have g: "filter (\<lambda>i. date_key i = date day1) forecast0 = group1"
    by (simp only: date_day1 group1_eq)
  have "let g = filter (\<lambda>i. date_key i = date day1) forecast0;
            lo = Min ((\<lambda>i. temp_min (main i)) ` set g);
            hi = Max ((\<lambda>i. temp_max (main i)) ` set g)
        in g \<noteq> [] \<and> min_day day1 = Math_round lo \<and> max_day day1 = Math_round hi
           \<and> (\<forall>k. \<bar>of_int (min_day day1) - lo\<bar> \<le> \<bar>of_int k - lo\<bar>)
           \<and> (\<forall>k. \<bar>of_int (max_day day1) - hi\<bar> \<le> \<bar>of_int k - hi\<bar>)"
    using buildDaily_min_max[OF buildDaily_forecast0] day1_in by blast
  then have r: "min_day day1 = Math_round (Min ((\<lambda>i. temp_min (main i)) ` set group1))"
    "max_day day1 = Math_round (Max ((\<lambda>i. temp_max (main i)) ` set group1))"
    unfolding g Let_def by blast+
  have lo: "Min ((\<lambda>i. temp_min (main i)) ` set group1) = 48 / 5"
    by (simp add: group1_def sample_def)
  have hi: "Max ((\<lambda>i. temp_max (main i)) ` set group1) = 25 / 2"
    by (simp add: group1_def sample_def)
  have v: "min_day day1 = 10" "max_day day1 = 13" by (simp_all add: day1_def)
  from buildDaily_forecast0 day1_in g lo hi v r show ?thesis by blast
qed

text \<open>
  C3. With timestamps in the provider's form, the icon and the label of an entry are
  those of the first weather entry of one sample of its date: the sample at position
  \<open>n\<close> among the samples of that date in input order, where no sample of the date has
  its hour nearer to 12 (in whole hours, \<open>|getHours() - 12|\<close>), and every sample before
  position \<open>n\<close> is strictly farther. Equal distances go to the sample met first.
\<close>

theorem buildDaily_representative:
  assumes "buildDaily list = Inr out" "e \<in> set out" "\<forall>i\<in>set list. stamp_ok (dt_txt i)"
  shows "let g = filter (\<lambda>i. date_key i = date e) list in
         \<exists>n<length g. \<exists>w ws h.
            weather (g ! n) = w # ws \<and> icon_day e = icon w \<and> desc e = main_w w \<and>
            Date_getHours (dt_txt (g ! n)) = Some h \<and>
            (\<forall>j<length g. \<exists>h'. Date_getHours (dt_txt (g ! j)) = Some h' \<and>
                \<bar>h - 12\<bar> \<le> \<bar>h' - 12\<bar> \<and> (j < n \<longrightarrow> \<bar>h - 12\<bar> < \<bar>h' - 12\<bar>))"
proof -
  define g where "g = filter (\<lambda>i. date_key i = date e) list"
  have s: "summarize (date e, g) = Inr e" unfolding g_def using assms(1,2) by (rule buildDaily_entry)
  have ne: "g \<noteq> []" using s by (rule summarize_Inr(1))
  then have g: "g = hd g # tl g" by simp
  have ok: "\<forall>x\<in>set g. stamp_ok (dt_txt x)" using assms(3) by (simp add: g_def)
  then have "\<forall>x\<in>set (hd g # tl g). stamp_ok (dt_txt x)" using g by simp
  from pick_best_first_min[OF this] obtain n where n: "n < length g"
    "pick_best (hd g) (tl g) = g ! n"
    "\<forall>j<length g. dist_of (g ! n) \<le> dist_of (g ! j)"
    "\<forall>j<n. dist_of (g ! n) < dist_of (g ! j)"
    using g by metis
  from summarize_Inr(5)[OF s] n(2) obtain w ws where w: "weather (g ! n) = w # ws"
    "icon_day e = icon w" "desc e = main_w w" by auto
  from ok n(1) obtain h where h: "Date_getHours (dt_txt (g ! n)) = Some h" "dist_of (g ! n) = \<bar>h - 12\<bar>"
    using stamp_ok_dist[of "g ! n"] by auto
  have "\<forall>j<length g. \<exists>h'. Date_getHours (dt_txt (g ! j)) = Some h' \<and>
                \<bar>h - 12\<bar> \<le> \<bar>h' - 12\<bar> \<and> (j < n \<longrightarrow> \<bar>h - 12\<bar> < \<bar>h' - 12\<bar>)"
  proof (intro allI impI)
    fix j assume j: "j < length g"
    with ok obtain h' where h': "Date_getHours (dt_txt (g ! j)) = Some h'" "dist_of (g ! j) = \<bar>h' - 12\<bar>"
      using stamp_ok_dist[of "g ! j"] by auto
    show "\<exists>h'. Date_getHours (dt_txt (g ! j)) = Some h' \<and>
                \<bar>h - 12\<bar> \<le> \<bar>h' - 12\<bar> \<and> (j < n \<longrightarrow> \<bar>h - 12\<bar> < \<bar>h' - 12\<bar>)"
      using h' h(2) n(3,4) j by (intro exI[of _ h']) auto
  qed
  with n(1) w h(1) show ?thesis unfolding g_def[symmetric] Let_def by blast
qed

theorem buildDaily_representative_witness:
  "buildDaily forecast0 = Inr days0 \<and> day1 \<in> set days0 \<and>
   list_all (\<lambda>i. stamp_ok (dt_txt i)) forecast0 \<and>
   filter (\<lambda>i. date_key i = date day1) forecast0 = group1 \<and>
   (\<exists>n<length group1. \<exists>w ws h.
      weather (group1 ! n) = w # ws \<and> icon_day day1 = icon w \<and> desc day1 = main_w w \<and>
      Date_getHours (dt_txt (group1 ! n)) = Some h \<and>
      (\<forall>j<length group1. \<exists>h'. Date_getHours (dt_txt (group1 ! j)) = Some h' \<and>
          \<bar>h - 12\<bar> \<le> \<bar>h' - 12\<bar> \<and> (j < n \<longrightarrow> \<bar>h - 12\<bar> < \<bar>h' - 12\<bar>)))"
proof -
  have g: "filter (\<lambda>i. date_key i = date day1) forecast0 = group1"
    by (simp only: date_day1 group1_eq)
  have ok: "list_all (\<lambda>i. stamp_ok (dt_txt i)) forecast0"
    using forecast0_ok by (simp only: list_all_iff)
  show ?thesis
    using buildDaily_representative[OF buildDaily_forecast0 day1_in forecast0_ok] buildDaily_forecast0 day1_in ok g
    unfolding g Let_def by blast
qed

text \<open>
  C9. \<open>buildDaily\<close> has no error case: the empty list of samples gives the empty list
  of days, and every list of samples that carry a weather entry gives a list of days.
  (The function holds no \<open>throw\<close>; the one exception in reach is that of
  \<open>best.weather[0].icon\<close> on a sample without weather entry.)
\<close>

theorem buildDaily_no_error:
  "buildDaily [] = Inr [] \<and>
   ((\<forall>i\<in>set list. weather i \<noteq> []) \<longrightarrow> (\<exists>out. buildDaily list = Inr out))"
proof
  show "buildDaily [] = Inr []"
    by (simp add: buildDaily_def group_by_date_def Array_sort_def)
  show "(\<forall>i\<in>set list. weather i \<noteq> []) \<longrightarrow> (\<exists>out. buildDaily list = Inr out)"
    using buildDaily_total by blast
qed

theorem buildDaily_no_error_witness:
  "list_all (\<lambda>i. weather i \<noteq> []) forecast0 \<and> (\<exists>out. buildDaily forecast0 = Inr out)"
proof -
  have w: "\<forall>i\<in>set forecast0. weather i \<noteq> []" by code_simp
  with buildDaily_no_error[of forecast0] show ?thesis by (simp only: list_all_iff)
qed

section \<open>Properties of the component\<close>

subsection \<open>Facts along every run\<close>

lemma set_remove_nth: "set (remove_nth n xs) \<subseteq> set xs"
  by (induction n xs rule: remove_nth.induct) auto

lemma unawaited_fetchWeather:
  "unawaited (fetchWeather API_KEY city unit s) s =
     (case API_KEY of
        Unbound \<Rightarrow> s
      | Undefined \<Rightarrow> s\<lparr> errorMsg := ''Missing OpenWeather API key in .env.local'' \<rparr>
      | Key k \<Rightarrow>
          if k = [] then s\<lparr> errorMsg := ''Missing OpenWeather API key in .env.local'' \<rparr>
          else if city = [] then s
          else s\<lparr> loading := True, errorMsg := [],
                  sent := sent s @ get_pair k city unit,
                  inflight := inflight s @ [(city, unit)] \<rparr>)"
  by (simp add: unawaited_def fetchWeather_def split: binding.splits)

lemma submit_key_undefined:
  "step Undefined s Submit = s\<lparr> errorMsg := ''Missing OpenWeather API key in .env.local'' \<rparr>"
  by (simp add: onSubmit_def unawaited_fetchWeather)

lemma run_inv_init: "run_inv API_KEY init"
  by (simp add: run_inv_def init_def)

lemma run_inv_fetchWeather:
  assumes "run_inv API_KEY s"
  shows "run_inv API_KEY (unawaited (fetchWeather API_KEY city unit s) s)"
  using assms
  by (auto simp: run_inv_def unawaited_fetchWeather keyed_def split: binding.splits)

lemma run_inv_units: "run_inv API_KEY s \<Longrightarrow> run_inv API_KEY (s\<lparr> units := u \<rparr>)"
  by (simp add: run_inv_def)

lemma run_inv_settled:
  assumes "run_inv API_KEY s" "n < length (inflight s)"
  shows "run_inv API_KEY (fetchWeather_settled (fst (inflight s ! n)) w f
            (s\<lparr> inflight := remove_nth n (inflight s) \<rparr>))"
proof -
  have "fst (inflight s ! n) \<in> fst ` set (inflight s)"
    using nth_mem[OF assms(2)] by (rule imageI)
  with assms have key: "keyed API_KEY" and city: "fst (inflight s ! n) \<noteq> []"
    by (auto simp: run_inv_def)
  have "\<forall>c\<in>fst ` set (remove_nth n (inflight s)). c \<noteq> []"
    using assms(1) set_remove_nth[of n "inflight s"] by (auto simp: run_inv_def)
  then show ?thesis
    using key city
    by (auto simp: run_inv_def fetchWeather_settled_def fetch_failed_def
        split: option.splits sum.splits)
qed

lemma run_inv_step: "run_inv API_KEY s \<Longrightarrow> run_inv API_KEY (step API_KEY s ev)"
proof (cases ev)
  case (Change v)
  assume "run_inv API_KEY s"
  then show ?thesis by (simp add: Change run_inv_def)
next
  case Submit
  assume "run_inv API_KEY s"
  then show ?thesis by (simp add: Submit onSubmit_def run_inv_fetchWeather)
next
  case Toggle
  assume "run_inv API_KEY s"
  then show ?thesis
    by (simp add: Toggle onToggle_def Let_def run_inv_fetchWeather run_inv_units)
next
  case (Settle n w f)
  assume "run_inv API_KEY s"
  then show ?thesis by (simp add: Settle run_inv_settled)
qed

lemma run_inv_foldl: "run_inv API_KEY s \<Longrightarrow> run_inv API_KEY (foldl (step API_KEY) s evs)"
  by (induction evs arbitrary: s) (simp_all add: run_inv_step)

lemma run_inv_run: "run_inv API_KEY (run API_KEY evs)"
  by (simp add: run_def run_inv_foldl run_inv_init)

lemma lastCity_fetchWeather:
  "lastCity (unawaited (fetchWeather API_KEY city unit s) s) = lastCity s"
  by (simp add: unawaited_fetchWeather split: binding.splits)

lemma lastCity_step:
  "lastCity (step API_KEY s ev) =
     (case ev of
        Settle n (Some w_data) (Some f_list) \<Rightarrow>
          (if n < length (inflight s) \<and> \<not> isl (buildDaily f_list)
           then fst (inflight s ! n) else lastCity s)
      | _ \<Rightarrow> lastCity s)"
  by (cases ev)
     (auto simp: onSubmit_def onToggle_def Let_def lastCity_fetchWeather fetchWeather_settled_def
        fetch_failed_def split: option.splits sum.splits)

lemma lastCity_foldl:
  "lastCity (foldl (step API_KEY) s evs) =
     (if succeeded API_KEY s evs = [] then lastCity s else last (succeeded API_KEY s evs))"
proof (induction evs arbitrary: s)
  case Nil
  show ?case by simp
next
  case (Cons ev evs)
  show ?case
    by (simp add: Cons.IH lastCity_step split: event.splits option.splits)
qed

lemma lastCity_run:
  "lastCity (run API_KEY evs) =
     (if succeeded API_KEY init evs = [] then [] else last (succeeded API_KEY init evs))"
  unfolding run_def by (simp add: lastCity_foldl init_def)

lemma onToggle_keyed:
  assumes "lastCity s \<noteq> []" "k \<noteq> []"
  shows "onToggle (Key k) s =
           s\<lparr> units := toggled (units s), loading := True, errorMsg := [],
              sent := sent s @ get_pair k (lastCity s) (toggled (units s)),
              inflight := inflight s @ [(lastCity s, toggled (units s))] \<rparr>"
  using assms by (simp add: onToggle_def Let_def unawaited_fetchWeather)

lemma settled_rejected:
  assumes "w = None \<or> f = None \<or> (\<exists>l e. f = Some l \<and> buildDaily l = Inl e)"
  shows "fetchWeather_settled city w f s = fetch_failed s"
  using assms by (auto simp: fetchWeather_settled_def split: option.splits sum.splits)

lemma settled_accepted:
  assumes "buildDaily f_list = Inr ds"
  shows "fetchWeather_settled city (Some w_data) (Some f_list) s =
           s\<lparr> now := Some w_data, days := ds, lastCity := city, loading := False \<rparr>"
  using assms by (simp add: fetchWeather_settled_def)











subsection \<open>The sample runs\<close>

lemma run_snoc: "run API_KEY (evs @ [ev]) = step API_KEY (run API_KEY evs) ev"
  by (simp add: run_def)

lemma run_waiting_paris: "run key0 [Change ''Paris'', Submit] = waiting_paris"
  by (simp add: run_def key0_def onSubmit_def unawaited_fetchWeather init_def trim_def
      is_space_def waiting_paris_def)

lemma run_search_paris: "run key0 search_paris = shown_paris"
proof -
  have "run key0 search_paris = step key0 waiting_paris (Settle 0 (Some paris) (Some forecast0))"
    using run_snoc[of key0 "[Change ''Paris'', Submit]"]
    by (simp add: search_paris_def run_waiting_paris)
  then show ?thesis
    by (simp add: waiting_paris_def settled_accepted[OF buildDaily_forecast0] shown_paris_def)
qed

lemma run_search_atlantis: "run key0 search_atlantis = waiting_atlantis"
proof -
  have "run key0 search_atlantis = step key0 (step key0 shown_paris (Change ''Atlantis'')) Submit"
    by (simp add: search_atlantis_def run_def run_search_paris[unfolded run_def])
  then show ?thesis
    by (simp add: shown_paris_def waiting_atlantis_def key0_def onSubmit_def
        unawaited_fetchWeather trim_def is_space_def)
qed

lemma run_toggled_paris:
  "run key0 (search_paris @ [Toggle]) =
     shown_paris\<lparr> units := ''imperial'', loading := True,
       sent := get_pair ''k'' ''Paris'' ''metric'' @ get_pair ''k'' ''Paris'' ''imperial'',
       inflight := [(''Paris'', ''imperial'')] \<rparr>"
  unfolding run_snoc run_search_paris
  by (simp add: shown_paris_def key0_def onToggle_keyed toggled_def)

lemma succeeded_search_paris: "succeeded key0 init search_paris = [''Paris'']"
proof -
  have "step key0 (step key0 init (Change ''Paris'')) Submit = waiting_paris"
    using run_waiting_paris by (simp add: run_def)
  then show ?thesis
    by (simp add: search_paris_def waiting_paris_def buildDaily_forecast0)
qed

lemma succeeded_append:
  "succeeded API_KEY s (evs @ evs') =
     succeeded API_KEY s evs @ succeeded API_KEY (foldl (step API_KEY) s evs) evs'"
  by (induction evs arbitrary: s) simp_all


subsection \<open>The claims\<close>




text \<open>
  C5 describes the guard of line 58; the file as committed does not reach it. With
  \<open>API_KEY\<close> bound nowhere the test \<open>!API_KEY\<close> raises \<open>ReferenceError\<close> before
  \<open>setErrorMsg\<close>: a submit leaves every field as it was, the error message empty, and
  the rejected call is handled by nobody. (\<open>submit_key_undefined\<close> above is the guard
  at work once the identifier is bound.)
\<close>

theorem submit_unbound_key:
  "fetchWeather Unbound (trim (query s)) (units s) s = Inl ReferenceError \<and>
   step Unbound s Submit = s \<and>
   errorMsg (step Unbound (run Unbound [Change ''Paris'']) Submit) = [] \<and>
   sent (step Unbound (run Unbound [Change ''Paris'']) Submit) = []"
  by (simp add: fetchWeather_def onSubmit_def unawaited_def run_def init_def)

text \<open>
  C6. When a call of \<open>fetchWeather\<close> settles and either request has failed (or
  \<open>buildDaily\<close> throws on the forecast), \<open>now\<close> becomes \<open>null\<close> and \<open>days\<close> empty,
  whatever they held, and the error message is set to a text that is not empty.
\<close>

theorem failed_fetch_clears:
  assumes "n < length (inflight s)"
    and "w = None \<or> f = None \<or> (\<exists>l e. f = Some l \<and> buildDaily l = Inl e)"
  shows "now (step API_KEY s (Settle n w f)) = None
       \<and> days (step API_KEY s (Settle n w f)) = []
       \<and> errorMsg (step API_KEY s (Settle n w f)) = ''City not found. Try another name.''
       \<and> errorMsg (step API_KEY s (Settle n w f)) \<noteq> []"
  using assms(1) settled_rejected[OF assms(2)] by (simp add: fetch_failed_def)

theorem failed_fetch_clears_witness:
  "now (run key0 search_atlantis) = Some paris \<and> days (run key0 search_atlantis) = days0 \<and>
   0 < length (inflight (run key0 search_atlantis)) \<and>
   now (step key0 (run key0 search_atlantis) (Settle 0 None (Some forecast0))) = None \<and>
   days (step key0 (run key0 search_atlantis) (Settle 0 None (Some forecast0))) = [] \<and>
   errorMsg (step key0 (run key0 search_atlantis) (Settle 0 None (Some forecast0))) \<noteq> []"
proof -
  have n: "0 < length (inflight (run key0 search_atlantis))"
    by (simp add: run_search_atlantis waiting_atlantis_def)
  have d: "now (run key0 search_atlantis) = Some paris" "days (run key0 search_atlantis) = days0"
    by (simp_all add: run_search_atlantis waiting_atlantis_def)
  from failed_fetch_clears[OF n, of None "Some forecast0" key0] n d show ?thesis by simp
qed

text \<open>
  C7. After any run of events, whenever the unit toggle is there to be clicked (\<open>now\<close> is
  present) a search has succeeded, and the click flips the unit, \<open>metric\<close> to
  \<open>imperial\<close> and anything else to \<open>metric\<close>, and issues exactly two requests, to the
  weather and the forecast endpoint, for the city of the last search that succeeded,
  under the new unit and with the configured key; one more call waits. With no search
  succeeded \<open>now\<close> is \<open>null\<close>, no toggle is rendered, and the event changes nothing: no
  request is issued.
\<close>

theorem toggle_refetches_last_city:
  "let s = run API_KEY evs; cs = succeeded API_KEY init evs; s' = step API_KEY s Toggle in
     (now s \<noteq> None \<longrightarrow>
        cs \<noteq> [] \<and>
        units s' = (if units s = ''metric'' then ''imperial'' else ''metric'') \<and>
        (\<exists>k. API_KEY = Key k \<and>
           sent s' = sent s @
             [\<lparr> url = ''https://api.openweathermap.org/data/2.5/weather'', q = last cs,
                 units_param = units s', appid = k \<rparr>,
              \<lparr> url = ''https://api.openweathermap.org/data/2.5/forecast'', q = last cs,
                 units_param = units s', appid = k \<rparr>]) \<and>
        inflight s' = inflight s @ [(last cs, units s')]) \<and>
     (now s = None \<longrightarrow> s' = s) \<and>
     (cs = [] \<longrightarrow> now s = None)"
proof -
  define s where "s = run API_KEY evs"
  define cs where "cs = succeeded API_KEY init evs"
  define s' where "s' = step API_KEY s Toggle"
  have lc: "lastCity s = (if cs = [] then [] else last cs)"
    unfolding s_def cs_def by (rule lastCity_run)
  have inv: "run_inv API_KEY s" unfolding s_def by (rule run_inv_run)
  have a: "cs \<noteq> [] \<and>
        units s' = (if units s = ''metric'' then ''imperial'' else ''metric'') \<and>
        (\<exists>k. API_KEY = Key k \<and>
           sent s' = sent s @
             [\<lparr> url = ''https://api.openweathermap.org/data/2.5/weather'', q = last cs,
                 units_param = units s', appid = k \<rparr>,
              \<lparr> url = ''https://api.openweathermap.org/data/2.5/forecast'', q = last cs,
                 units_param = units s', appid = k \<rparr>]) \<and>
        inflight s' = inflight s @ [(last cs, units s')]"
    if shown: "now s \<noteq> None"
  proof -
    from inv shown have l: "lastCity s \<noteq> []" and "keyed API_KEY"
      by (auto simp: run_inv_def)
    then obtain k where k: "API_KEY = Key k" "k \<noteq> []"
      by (auto simp: keyed_def split: binding.splits)
    from l lc have cs: "cs \<noteq> []" "lastCity s = last cs" by (auto split: if_splits)
    have "s' = onToggle (Key k) s" using shown by (simp add: s'_def k(1))
    also have "\<dots> = s\<lparr> units := toggled (units s), loading := True, errorMsg := [],
              sent := sent s @ get_pair k (lastCity s) (toggled (units s)),
              inflight := inflight s @ [(lastCity s, toggled (units s))] \<rparr>"
      using l k(2) by (rule onToggle_keyed)
    finally have e: "s' = s\<lparr> units := toggled (units s), loading := True, errorMsg := [],
              sent := sent s @ get_pair k (lastCity s) (toggled (units s)),
              inflight := inflight s @ [(lastCity s, toggled (units s))] \<rparr>" .
    have u: "units s' = (if units s = ''metric'' then ''imperial'' else ''metric'')"
      by (simp add: e toggled_def)
    have "units s' = toggled (units s)" by (simp add: e)
    then have snt: "sent s' = sent s @
             [\<lparr> url = ''https://api.openweathermap.org/data/2.5/weather'', q = last cs,
                 units_param = units s', appid = k \<rparr>,
              \<lparr> url = ''https://api.openweathermap.org/data/2.5/forecast'', q = last cs,
                 units_param = units s', appid = k \<rparr>]"
      and inf: "inflight s' = inflight s @ [(last cs, units s')]"
      by (simp_all add: e cs(2) get_pair_def weather_url_def forecast_url_def)
    from cs(1) u k(1) snt inf show ?thesis by blast
  qed
  have b: "s' = s" if "now s = None"
    using that by (simp add: s'_def)
  have c: "now s = None" if "cs = []"
  proof (rule ccontr)
    assume "now s \<noteq> None"
    with inv have "lastCity s \<noteq> []" by (simp add: run_inv_def)
    with lc that show False by simp
  qed
  from a b c show ?thesis
    unfolding s_def[symmetric] cs_def[symmetric] s'_def[symmetric] Let_def by blast
qed

theorem toggle_refetches_last_city_witness:
  "now (run key0 search_paris) = Some paris \<and>
   succeeded key0 init search_paris = [''Paris''] \<and>
   units (run key0 search_paris) = ''metric'' \<and>
   units (step key0 (run key0 search_paris) Toggle) = ''imperial'' \<and>
   sent (step key0 (run key0 search_paris) Toggle)
     = sent (run key0 search_paris) @
       [\<lparr> url = ''https://api.openweathermap.org/data/2.5/weather'', q = ''Paris'',
           units_param = ''imperial'', appid = ''k'' \<rparr>,
        \<lparr> url = ''https://api.openweathermap.org/data/2.5/forecast'', q = ''Paris'',
           units_param = ''imperial'', appid = ''k'' \<rparr>] \<and>
   inflight (step key0 (run key0 search_paris) Toggle) = [(''Paris'', ''imperial'')] \<and>
   units (run key0 (search_paris @ [Toggle])) = ''imperial'' \<and>
   units (step key0 (run key0 (search_paris @ [Toggle])) Toggle) = ''metric'' \<and>
   sent (step key0 (run key0 (search_paris @ [Toggle])) Toggle)
     = sent (run key0 (search_paris @ [Toggle])) @
       [\<lparr> url = ''https://api.openweathermap.org/data/2.5/weather'', q = ''Paris'',
           units_param = ''metric'', appid = ''k'' \<rparr>,
        \<lparr> url = ''https://api.openweathermap.org/data/2.5/forecast'', q = ''Paris'',
           units_param = ''metric'', appid = ''k'' \<rparr>] \<and>
   now (run key0 [Change ''Paris'']) = None \<and>
   succeeded key0 init [Change ''Paris''] = [] \<and>
   step key0 (run key0 [Change ''Paris'']) Toggle = run key0 [Change ''Paris'']"
proof -
  have n1: "now (run key0 search_paris) = Some paris"
    and u1: "units (run key0 search_paris) = ''metric''"
    and i1: "inflight (run key0 search_paris) = []"
    by (simp_all add: run_search_paris shown_paris_def)
  have n2: "now (run key0 (search_paris @ [Toggle])) = Some paris"
    and u2: "units (run key0 (search_paris @ [Toggle])) = ''imperial''"
    by (simp_all add: run_toggled_paris shown_paris_def)
  have c2: "succeeded key0 init (search_paris @ [Toggle]) = [''Paris'']"
    unfolding succeeded_append by (simp add: succeeded_search_paris)
  have n3: "now (run key0 [Change ''Paris'']) = None"
    and c3: "succeeded key0 init [Change ''Paris''] = []"
    by (simp_all add: run_def init_def)
  have k: "key0 = Key k \<longleftrightarrow> k = ''k''" for k by (auto simp: key0_def)
  from toggle_refetches_last_city[of key0 search_paris] n1 u1 i1 succeeded_search_paris
  have a: "units (step key0 (run key0 search_paris) Toggle) = ''imperial'' \<and>
     sent (step key0 (run key0 search_paris) Toggle)
       = sent (run key0 search_paris) @
       [\<lparr> url = ''https://api.openweathermap.org/data/2.5/weather'', q = ''Paris'',
           units_param = ''imperial'', appid = ''k'' \<rparr>,
        \<lparr> url = ''https://api.openweathermap.org/data/2.5/forecast'', q = ''Paris'',
           units_param = ''imperial'', appid = ''k'' \<rparr>] \<and>
     inflight (step key0 (run key0 search_paris) Toggle) = [(''Paris'', ''imperial'')]"
    unfolding Let_def by (simp add: k)
  from toggle_refetches_last_city[of key0 "search_paris @ [Toggle]"] n2 u2 c2
  have b: "units (step key0 (run key0 (search_paris @ [Toggle])) Toggle) = ''metric'' \<and>
     sent (step key0 (run key0 (search_paris @ [Toggle])) Toggle)
       = sent (run key0 (search_paris @ [Toggle])) @
       [\<lparr> url = ''https://api.openweathermap.org/data/2.5/weather'', q = ''Paris'',
           units_param = ''metric'', appid = ''k'' \<rparr>,
        \<lparr> url = ''https://api.openweathermap.org/data/2.5/forecast'', q = ''Paris'',
           units_param = ''metric'', appid = ''k'' \<rparr>]"
    unfolding Let_def by (simp add: k)
  from toggle_refetches_last_city[of key0 "[Change ''Paris'']"] n3
  have c: "step key0 (run key0 [Change ''Paris'']) Toggle = run key0 [Change ''Paris'']"
    unfolding Let_def by simp
  from a b c n1 u1 u2 n3 c3 succeeded_search_paris show ?thesis by simp
qed

text \<open>
  C8. A submit whose query is empty or white space only changes no field of the state
  and issues no request (the requests sent are part of the state): in the file as
  committed, and with a key configured, where \<open>if(!city) return\<close> ends the call.
\<close>

theorem blank_submit_no_change:
  assumes "\<forall>c\<in>set (query s). is_space c"
  shows "step Unbound s Submit = s \<and> (k \<noteq> [] \<longrightarrow> step (Key k) s Submit = s)"
proof -
  have blank: "\<forall>c\<in>set q. is_space c \<Longrightarrow> dropWhile is_space q = []" for q
    by (induction q) auto
  have d: "dropWhile is_space (query s) = []" using assms by (rule blank)
  have "trim (query s) = []" unfolding trim_def d by simp
  then show ?thesis by (simp add: onSubmit_def unawaited_def fetchWeather_def)
qed

theorem blank_submit_no_change_witness:
  "list_all is_space (query (run Unbound [Change ''   ''])) \<and>
   step Unbound (run Unbound [Change ''   '']) Submit = run Unbound [Change ''   ''] \<and>
   list_all is_space (query (run key0 (search_paris @ [Change ''   '']))) \<and>
   step key0 (run key0 (search_paris @ [Change ''   ''])) Submit
     = run key0 (search_paris @ [Change ''   ''])"
proof -
  have q1: "query (run Unbound [Change ''   '']) = ''   ''" by (simp add: run_def)
  have q2: "query (run key0 (search_paris @ [Change ''   ''])) = ''   ''"
    by (simp add: run_snoc)
  have sp1: "\<forall>c\<in>set (query (run Unbound [Change ''   ''])). is_space c"
    unfolding q1 by (simp add: is_space_def)
  have sp2: "\<forall>c\<in>set (query (run key0 (search_paris @ [Change ''   '']))). is_space c"
    unfolding q2 by (simp add: is_space_def)
  from blank_submit_no_change[OF sp1, of "''k''"] blank_submit_no_change[OF sp2, of "''k''"] sp1 sp2 show ?thesis
    by (simp add: list_all_iff key0_def)
qed




end
